theory Spec2Isabelle
  imports Main "HOL-Library.Word"
begin

unbundle bit_operations_syntax

section \<open>Bounded lock-free queues: sequential embedding\<close>

text \<open>
  The two headers \<^verbatim>\<open>mpmc_queue.h\<close> and \<^verbatim>\<open>ring_buffer.h\<close> are embedded as state-passing
  functions for a single calling thread. An atomic load reads a field, an atomic
  store writes it, and a compare-exchange succeeds exactly when the atomic still holds the
  expected value (the spurious failure that the weak form allows only repeats the loop
  iteration on the same state and is not modelled). A \<^verbatim>\<open>while (true)\<close> loop that never
  exits has the value \<open>None\<close>.

  \<^verbatim>\<open>size_t\<close> is a 64-bit word: addition and subtraction wrap around, and the comparisons of two
  \<^verbatim>\<open>size_t\<close> compare the unsigned values. The template parameter \<^verbatim>\<open>Capacity\<close> is passed to
  every function as a \<^verbatim>\<open>size_t\<close>. What the operations need of the element type \<^verbatim>\<open>T\<close> is
  passed as a record: the value that \<^verbatim>\<open>T()\<close> constructs, the value that an object holds
  after default-initialisation (a member that the constructor does not name, or a local
  \<^verbatim>\<open>T result;\<close>), and the value that a move leaves behind in its source. For a class type
  default-initialisation runs the default constructor; for a scalar type it leaves whatever
  the storage held, which need not be the same in two objects, so \<open>T_default_init\<close> takes the
  number of the object: \<open>0\<close> for the local of \<^verbatim>\<open>dequeue()\<close> and \<open>i + 1\<close> for the element of
  slot \<open>i\<close>.
  The members \<^verbatim>\<open>head_\<close>, \<^verbatim>\<open>tail_\<close>, \<^verbatim>\<open>slots_\<close> and \<^verbatim>\<open>buffer_\<close> are the fields
  \<open>q_head\<close>, \<open>q_tail\<close>, \<open>q_slots\<close> of an \<open>MPMCQueue\<close> and \<open>rb_head\<close>, \<open>rb_tail\<close>,
  \<open>rb_buffer\<close> of a \<open>RingBuffer\<close>.
\<close>

type_synonym size_t = "64 word"

record 'a T_ops =
  T_default :: 'a
  T_default_init :: "nat \<Rightarrow> 'a"
  T_moved :: "'a \<Rightarrow> 'a"

text \<open>The two \<^verbatim>\<open>static_assert\<close>s on \<^verbatim>\<open>Capacity\<close> that both class templates share.\<close>

definition valid_capacity :: "size_t \<Rightarrow> bool" where
  "valid_capacity Capacity \<longleftrightarrow> Capacity > 0 \<and> Capacity AND (Capacity - 1) = 0"

text \<open>The calls a test driver can make, and what each call hands back.\<close>

datatype 'a op = Enq 'a | DeqOut 'a | Deq

datatype 'a result = EnqR bool | DeqOutR bool 'a | DeqR "'a option"

subsection \<open>\<^verbatim>\<open>MPMCQueue\<close>\<close>

record 'a Slot =
  sequence :: size_t
  element :: 'a

record 'a MPMCQueue =
  q_tail :: size_t
  q_head :: size_t
  q_slots :: "'a Slot list"

text \<open>
  The constructor: both counters zero, slot \<open>i\<close> seeded with sequence \<open>i\<close>. The elements are
  not written; each is left default-initialised.
\<close>

definition MPMCQueue_new :: "size_t \<Rightarrow> 'a T_ops \<Rightarrow> 'a MPMCQueue" where
  "MPMCQueue_new Capacity T =
     \<lparr>q_tail = 0, q_head = 0,
      q_slots = map (\<lambda>i. \<lparr>sequence = of_nat i, element = T_default_init T (Suc i)\<rparr>)
                  [0..<unat Capacity]\<rparr>"

text \<open>
  The body of \<^verbatim>\<open>while (true)\<close> in \<^verbatim>\<open>enqueue\<close>. \<open>head\<close> is the local variable; the
  difference of the two \<^verbatim>\<open>intptr_t\<close> casts is the 64-bit difference read as two's
  complement. A loop that never exits is the value \<open>None\<close>.
\<close>

partial_function (option) enqueue_loop ::
  "size_t \<Rightarrow> 'a MPMCQueue \<Rightarrow> 'a \<Rightarrow> size_t \<Rightarrow> ('a MPMCQueue \<times> bool) option" where
  "enqueue_loop Capacity q v head =
     (let i = unat (head AND (Capacity - 1));
          seq = sequence (q_slots q ! i);
          diff = seq - head
      in if diff \<noteq> 0 then
           (if sint diff < 0 then Some (q, False)
            else enqueue_loop Capacity q v (q_head q))
         else if q_head q \<noteq> head then enqueue_loop Capacity q v (q_head q)
         else Some (q\<lparr>q_head := head + 1,
                      q_slots := (q_slots q)[i := \<lparr>sequence = head + 1, element = v\<rparr>]\<rparr>, True))"

declare enqueue_loop.simps [code]

definition enqueue :: "size_t \<Rightarrow> 'a MPMCQueue \<Rightarrow> 'a \<Rightarrow> ('a MPMCQueue \<times> bool) option" where
  "enqueue Capacity q v = enqueue_loop Capacity q v (q_head q)"

text \<open>
  \<^verbatim>\<open>dequeue(T& result)\<close>: the third component of the value is \<open>result\<close> after the call.
\<close>

partial_function (option) dequeue_loop ::
  "size_t \<Rightarrow> 'a T_ops \<Rightarrow> 'a MPMCQueue \<Rightarrow> 'a \<Rightarrow> size_t \<Rightarrow> ('a MPMCQueue \<times> bool \<times> 'a) option" where
  "dequeue_loop Capacity T q result tail =
     (let i = unat (tail AND (Capacity - 1));
          seq = sequence (q_slots q ! i);
          diff = seq - tail - 1
      in if diff \<noteq> 0 then
           (if sint diff < 0 then Some (q, False, result)
            else dequeue_loop Capacity T q result (q_tail q))
         else if q_tail q \<noteq> tail then dequeue_loop Capacity T q result (q_tail q)
         else Some (q\<lparr>q_tail := tail + 1,
                      q_slots := (q_slots q)[i := \<lparr>sequence = tail + Capacity,
                                                element = T_moved T (element (q_slots q ! i))\<rparr>]\<rparr>,
                    True, element (q_slots q ! i)))"

declare dequeue_loop.simps [code]

definition dequeue ::
  "size_t \<Rightarrow> 'a T_ops \<Rightarrow> 'a MPMCQueue \<Rightarrow> 'a \<Rightarrow> ('a MPMCQueue \<times> bool \<times> 'a) option" where
  "dequeue Capacity T q result = dequeue_loop Capacity T q result (q_tail q)"

text \<open>\<^verbatim>\<open>std::optional<T> dequeue()\<close>: a default-initialised local, then the form above.\<close>

definition dequeue_opt ::
  "size_t \<Rightarrow> 'a T_ops \<Rightarrow> 'a MPMCQueue \<Rightarrow> ('a MPMCQueue \<times> 'a option) option" where
  "dequeue_opt Capacity T q =
     (case dequeue Capacity T q (T_default_init T 0) of
        None \<Rightarrow> None
      | Some (q', ok, result) \<Rightarrow> Some (q', if ok then Some result else None))"




text \<open>One call, and a sequence of calls, on a queue.\<close>

fun mpmc_step ::
  "size_t \<Rightarrow> 'a T_ops \<Rightarrow> 'a MPMCQueue \<Rightarrow> 'a op \<Rightarrow> ('a MPMCQueue \<times> 'a result) option" where
  "mpmc_step Capacity T q (Enq v) =
     (case enqueue Capacity q v of None \<Rightarrow> None | Some (q', ok) \<Rightarrow> Some (q', EnqR ok))"
| "mpmc_step Capacity T q (DeqOut r) =
     (case dequeue Capacity T q r of None \<Rightarrow> None
      | Some (q', ok, r') \<Rightarrow> Some (q', DeqOutR ok r'))"
| "mpmc_step Capacity T q Deq =
     (case dequeue_opt Capacity T q of None \<Rightarrow> None | Some (q', r) \<Rightarrow> Some (q', DeqR r))"

fun mpmc_run ::
  "size_t \<Rightarrow> 'a T_ops \<Rightarrow> 'a MPMCQueue \<Rightarrow> 'a op list \<Rightarrow> ('a MPMCQueue \<times> 'a result list) option" where
  "mpmc_run Capacity T q [] = Some (q, [])"
| "mpmc_run Capacity T q (x # xs) =
     (case mpmc_step Capacity T q x of
        None \<Rightarrow> None
      | Some (q', r) \<Rightarrow>
          (case mpmc_run Capacity T q' xs of
             None \<Rightarrow> None
           | Some (q'', rs) \<Rightarrow> Some (q'', r # rs)))"

definition mpmc_reachable :: "size_t \<Rightarrow> 'a T_ops \<Rightarrow> 'a MPMCQueue \<Rightarrow> bool" where
  "mpmc_reachable Capacity T q \<longleftrightarrow>
     (\<exists>ops rs. mpmc_run Capacity T (MPMCQueue_new Capacity T) ops = Some (q, rs))"

subsection \<open>\<^verbatim>\<open>RingBuffer\<close>\<close>

record 'a RingBuffer =
  rb_head :: size_t
  rb_tail :: size_t
  rb_buffer :: "'a list"

definition RingBuffer_new :: "size_t \<Rightarrow> 'a T_ops \<Rightarrow> 'a RingBuffer" where
  "RingBuffer_new Capacity T =
     \<lparr>rb_head = 0, rb_tail = 0, rb_buffer = replicate (unat Capacity) (T_default T)\<rparr>"

text \<open>
  \<^verbatim>\<open>try_enqueue\<close>: the copying and the moving overload act on the buffer in the same way.
\<close>

definition try_enqueue :: "size_t \<Rightarrow> 'a RingBuffer \<Rightarrow> 'a \<Rightarrow> 'a RingBuffer \<times> bool" where
  "try_enqueue Capacity q item =
     (let head = rb_head q;
          next_head = head + 1;
          tail = rb_tail q
      in if next_head - tail > Capacity then (q, False)
         else (q\<lparr>rb_buffer := (rb_buffer q)[unat (head AND (Capacity - 1)) := item],
                 rb_head := next_head\<rparr>, True))"

text \<open>
  \<^verbatim>\<open>try_dequeue(T& result)\<close>: the element is moved out before the compare-exchange on
  the tail, which is kept as the source has it.
\<close>

definition try_dequeue ::
  "size_t \<Rightarrow> 'a T_ops \<Rightarrow> 'a RingBuffer \<Rightarrow> 'a \<Rightarrow> 'a RingBuffer \<times> bool \<times> 'a" where
  "try_dequeue Capacity T q result =
     (let tail = rb_tail q;
          head = rb_head q
      in if head \<le> tail then (q, False, result)
         else
           (let i = unat (tail AND (Capacity - 1));
                result' = rb_buffer q ! i;
                q1 = q\<lparr>rb_buffer := (rb_buffer q)[i := T_moved T result']\<rparr>
            in if rb_tail q1 = tail then (q1\<lparr>rb_tail := tail + 1\<rparr>, True, result')
               else (q1, False, result')))"

definition try_dequeue_opt ::
  "size_t \<Rightarrow> 'a T_ops \<Rightarrow> 'a RingBuffer \<Rightarrow> 'a RingBuffer \<times> 'a option" where
  "try_dequeue_opt Capacity T q =
     (let tail = rb_tail q;
          head = rb_head q
      in if head \<le> tail then (q, None)
         else
           (let i = unat (tail AND (Capacity - 1));
                result = rb_buffer q ! i;
                q1 = q\<lparr>rb_buffer := (rb_buffer q)[i := T_moved T result]\<rparr>
            in if rb_tail q1 = tail then (q1\<lparr>rb_tail := tail + 1\<rparr>, Some result)
               else (q1, None)))"

definition rb_size :: "'a RingBuffer \<Rightarrow> size_t" where
  "rb_size q = (let head = rb_head q; tail = rb_tail q in head - tail)"

definition rb_empty :: "'a RingBuffer \<Rightarrow> bool" where
  "rb_empty q \<longleftrightarrow> rb_size q = 0"

definition rb_full :: "size_t \<Rightarrow> 'a RingBuffer \<Rightarrow> bool" where
  "rb_full Capacity q \<longleftrightarrow> rb_size q \<ge> Capacity"


fun rb_step :: "size_t \<Rightarrow> 'a T_ops \<Rightarrow> 'a RingBuffer \<Rightarrow> 'a op \<Rightarrow> 'a RingBuffer \<times> 'a result" where
  "rb_step Capacity T q (Enq v) = (case try_enqueue Capacity q v of (q', ok) \<Rightarrow> (q', EnqR ok))"
| "rb_step Capacity T q (DeqOut r) =
     (case try_dequeue Capacity T q r of (q', ok, r') \<Rightarrow> (q', DeqOutR ok r'))"
| "rb_step Capacity T q Deq = (case try_dequeue_opt Capacity T q of (q', r) \<Rightarrow> (q', DeqR r))"

fun rb_run ::
  "size_t \<Rightarrow> 'a T_ops \<Rightarrow> 'a RingBuffer \<Rightarrow> 'a op list \<Rightarrow> 'a RingBuffer \<times> 'a result list" where
  "rb_run Capacity T q [] = (q, [])"
| "rb_run Capacity T q (x # xs) =
     (case rb_step Capacity T q x of
        (q', r) \<Rightarrow> (case rb_run Capacity T q' xs of (q'', rs) \<Rightarrow> (q'', r # rs)))"

definition rb_reachable :: "size_t \<Rightarrow> 'a T_ops \<Rightarrow> 'a RingBuffer \<Rightarrow> bool" where
  "rb_reachable Capacity T q \<longleftrightarrow>
     (\<exists>ops rs. rb_run Capacity T (RingBuffer_new Capacity T) ops = (q, rs))"

text \<open>
  The loop of \<^verbatim>\<open>~RingBuffer\<close>: the value is the list of buffer positions whose element
  the loop destroys, in the order of the calls.
\<close>

function destructor_loop :: "size_t \<Rightarrow> size_t \<Rightarrow> size_t \<Rightarrow> nat list" where
  "destructor_loop Capacity head tail =
     (if head \<noteq> tail
      then unat (head AND (Capacity - 1)) # destructor_loop Capacity (head + 1) tail
      else [])"
  by pat_completeness auto
termination
proof (relation "measure (\<lambda>(Capacity, head, tail). unat (tail - head))")
  show "wf (measure (\<lambda>(Capacity, head, tail). unat (tail - head)))"
    by simp
next
  fix Capacity head tail :: size_t
  assume ne: "head \<noteq> tail"
  have nz: "tail - head \<noteq> 0"
    using ne by simp
  have eq: "tail - (head + 1) = (tail - head) - 1"
    by simp
  have pos: "0 < unat (tail - head)"
    using nz by (simp add: unat_gt_0)
  have "unat ((tail - head) - 1) < unat (tail - head)"
    using nz pos by (simp add: unat_minus_one)
  then have "unat (tail - (head + 1)) < unat (tail - head)"
    by (simp only: eq)
  then show "((Capacity, head + 1, tail), (Capacity, head, tail))
        \<in> measure (\<lambda>(Capacity, head, tail). unat (tail - head))"
    by simp
qed

declare destructor_loop.simps [simp del]

definition RingBuffer_destructor :: "size_t \<Rightarrow> 'a RingBuffer \<Rightarrow> nat list" where
  "RingBuffer_destructor Capacity q = destructor_loop Capacity (rb_head q) (rb_tail q)"


subsection \<open>Slot positions, invariants and contents\<close>

text \<open>
  \<open>idx Capacity x\<close> is the array position \<^verbatim>\<open>x & mask_\<close> of the absolute index \<open>x\<close>, where
  \<^verbatim>\<open>mask_ = Capacity - 1\<close>.
\<close>

definition idx :: "size_t \<Rightarrow> size_t \<Rightarrow> nat" where
  "idx Capacity x = unat (x AND (Capacity - 1))"

text \<open>
  The state invariant of the sequenced-slot queue, in wrap-around arithmetic: at most
  \<open>Capacity\<close> elements are queued, and the slot \<open>j\<close> places after the consumer index carries
  the sequence \<open>tail + j + 1\<close> when it holds an element and \<open>tail + j\<close> when it is free.
\<close>

definition mpmc_inv :: "size_t \<Rightarrow> 'a MPMCQueue \<Rightarrow> bool" where
  "mpmc_inv Capacity q \<longleftrightarrow>
     length (q_slots q) = unat Capacity \<and>
     unat (q_head q - q_tail q) \<le> unat Capacity \<and>
     (\<forall>j \<in> {0..<unat Capacity}.
        sequence (q_slots q ! idx Capacity (q_tail q + of_nat j)) =
          q_tail q + of_nat j + (if j < unat (q_head q - q_tail q) then 1 else 0))"

text \<open>The queued elements, oldest first.\<close>

definition mpmc_contents :: "size_t \<Rightarrow> 'a MPMCQueue \<Rightarrow> 'a list" where
  "mpmc_contents Capacity q =
     map (\<lambda>j. element (q_slots q ! idx Capacity (q_tail q + of_nat j)))
       [0..<unat (q_head q - q_tail q)]"

definition rb_inv :: "size_t \<Rightarrow> 'a RingBuffer \<Rightarrow> bool" where
  "rb_inv Capacity q \<longleftrightarrow>
     length (rb_buffer q) = unat Capacity \<and> unat (rb_head q - rb_tail q) \<le> unat Capacity"

definition rb_contents :: "size_t \<Rightarrow> 'a RingBuffer \<Rightarrow> 'a list" where
  "rb_contents Capacity q =
     map (\<lambda>j. rb_buffer q ! idx Capacity (rb_tail q + of_nat j))
       [0..<unat (rb_head q - rb_tail q)]"

text \<open>What one call does to the two counters.\<close>

definition mpmc_moves :: "'a MPMCQueue \<Rightarrow> 'a MPMCQueue \<Rightarrow> bool" where
  "mpmc_moves q q' \<longleftrightarrow>
     q' = q \<or>
     (q_head q' = q_head q + 1 \<and> q_tail q' = q_tail q) \<or>
     (q_head q' = q_head q \<and> q_tail q' = q_tail q + 1 \<and> q_head q \<noteq> q_tail q)"

definition rb_moves :: "'a RingBuffer \<Rightarrow> 'a RingBuffer \<Rightarrow> bool" where
  "rb_moves q q' \<longleftrightarrow>
     q' = q \<or>
     (rb_head q' = rb_head q + 1 \<and> rb_tail q' = rb_tail q) \<or>
     (rb_head q' = rb_head q \<and> rb_tail q' = rb_tail q + 1 \<and> rb_tail q < rb_head q)"

text \<open>
  The buffer positions of the elements still in the queue: the positions of the absolute
  indices from the consumer index up to, and not including, the producer index.
\<close>

definition rb_live_positions :: "size_t \<Rightarrow> 'a RingBuffer \<Rightarrow> nat list" where
  "rb_live_positions Capacity q =
     map (\<lambda>j. idx Capacity (rb_tail q + of_nat j)) [0..<unat (rb_head q - rb_tail q)]"

text \<open>
  The element type of the tests' \<^verbatim>\<open>MoveOnlyType\<close>: an integer payload, \<open>0\<close> when default
  constructed and \<open>0\<close> in an object that has been moved from.
\<close>

definition MoveOnlyType :: "int T_ops" where
  "MoveOnlyType = \<lparr>T_default = 0, T_default_init = (\<lambda>n. 0), T_moved = (\<lambda>x. 0)\<rparr>"

text \<open>
  One fill-then-drain cycle of the wrap-around tests: enqueue the values, then dequeue as many
  times; and what the calls of a cycle return when the round trip is the identity.
\<close>

definition cycle_ops :: "'a list \<Rightarrow> 'a op list" where
  "cycle_ops vs = map Enq vs @ replicate (length vs) Deq"

definition cycle_results :: "'a list \<Rightarrow> 'a result list" where
  "cycle_results vs = map (\<lambda>v. EnqR True) vs @ map (\<lambda>v. DeqR (Some v)) vs"

text \<open>
  The calls that take the producer index once round the 64 bits: \<open>2 ^ 64 - 1\<close> times an enqueue
  of 7 followed by a dequeue, and then one more enqueue of 7.
\<close>

definition wrap_ops :: "int op list" where
  "wrap_ops = concat (map cycle_ops (replicate (2 ^ 64 - 1) [7])) @ [Enq 7]"

text \<open>
  The state of a sequenced-slot queue of capacity 1 after two enqueues, of 1 and of 2.
\<close>

definition overfull_queue :: "int MPMCQueue" where
  "overfull_queue = \<lparr>q_tail = 0, q_head = 2, q_slots = [\<lparr>sequence = 2, element = 2\<rparr>]\<rparr>"

text \<open>
  The absolute index of the next producer expected to write the slot at position \<open>i\<close>, in the
  specification's words. Producers claim the absolute indices \<open>head\<close>, \<open>head + 1\<close>, \<dots> in
  turn; the one expected to write position \<open>i\<close> next is the first of them whose index lies at
  that position. \<open>first_claim Capacity a i n\<close> looks for it among the \<open>n\<close> indices from \<open>a\<close> on.
\<close>

fun first_claim :: "size_t \<Rightarrow> size_t \<Rightarrow> nat \<Rightarrow> nat \<Rightarrow> size_t" where
  "first_claim Capacity a i 0 = a"
| "first_claim Capacity a i (Suc n) =
     (if idx Capacity a = i then a else first_claim Capacity (a + 1) i n)"

definition next_producer_index :: "size_t \<Rightarrow> 'a MPMCQueue \<Rightarrow> nat \<Rightarrow> size_t" where
  "next_producer_index Capacity q i = first_claim Capacity (q_head q) i (unat Capacity)"

section \<open>Index arithmetic\<close>

lemma pow_lt_64: "k < 64 \<Longrightarrow> (2::nat) ^ k < 2 ^ 64"
  by (rule power_strict_increasing) simp_all

lemma unat_cap: 
  assumes "k < 64" shows "unat ((2::size_t) ^ k) = 2 ^ k"
proof -
  have "(2::size_t) ^ k = of_nat (2 ^ k)"
    by simp
  then have "unat ((2::size_t) ^ k) = (2 ^ k) mod 2 ^ 64"
    by (simp only: unat_of_nat) simp
  then show ?thesis
    using pow_lt_64 [OF assms] by simp
qed

lemma and_cap: "(x :: size_t) AND (2 ^ k - 1) = take_bit k x"
  by (simp add: take_bit_eq_mask mask_eq_exp_minus_1)

lemma idx_mod: "idx (2 ^ k) x = unat x mod 2 ^ k"
proof -
  have "idx (2 ^ k) x = unat (take_bit k x)"
    by (simp only: idx_def and_cap)
  also have "\<dots> = take_bit k (unat x)"
    by (simp add: unsigned_take_bit_eq)
  also have "\<dots> = unat x mod 2 ^ k"
    by (rule take_bit_eq_mod)
  finally show ?thesis .
qed

lemma idx_lt: "idx (2 ^ k) x < 2 ^ k"
  by (simp add: idx_mod)

lemma unat_plus_of_nat: "unat ((t :: size_t) + of_nat j) = (unat t + j) mod 2 ^ 64"
  by (simp add: unat_word_ariths unat_of_nat mod_simps)

lemma idx_offset:
  assumes "k < 64" shows "idx (2 ^ k) (t + of_nat j) = (unat t + j) mod 2 ^ k"
proof -
  have "(2::nat) ^ k dvd 2 ^ 64"
    by (rule le_imp_power_dvd) (use assms in simp)
  then have "((unat t + j) mod 2 ^ 64) mod 2 ^ k = (unat t + j) mod 2 ^ k"
    by (rule mod_mod_cancel)
  then show ?thesis
    by (simp only: idx_mod unat_plus_of_nat)
qed

lemma mod_add_cancel_nat:
  fixes a m i j :: nat
  assumes "(a + i) mod m = (a + j) mod m" "i < m" "j < m" "i \<le> j"
  shows "i = j"
proof -
  have "(a + j) mod m = (a + i) mod m \<longleftrightarrow> m dvd (a + j) - (a + i)"
    by (rule mod_eq_dvd_iff_nat) (use assms in simp)
  then have "m dvd j - i" 
    using assms by simp
  moreover have "j - i < m" using assms by simp
  ultimately have "j - i = 0"
    by (meson dvd_imp_le not_less zero_less_iff_neq_zero)
  then show ?thesis using assms by simp
qed

lemma idx_inj:
  assumes "k < 64" "i < 2 ^ k" "j < 2 ^ k"
    and "idx (2 ^ k) (t + of_nat i) = idx (2 ^ k) (t + of_nat j)"
  shows "i = j"
proof (cases "i \<le> j")
  case True
  then show ?thesis
    using assms mod_add_cancel_nat [of "unat t" i "2 ^ k" j] by (simp add: idx_offset)
next
  case False
  then have "j \<le> i" by simp
  then show ?thesis
    using assms mod_add_cancel_nat [of "unat t" j "2 ^ k" i] by (simp add: idx_offset)
qed

lemma idx_wrap: 
  assumes "k < 64" shows "idx (2 ^ k) (x + 2 ^ k) = idx (2 ^ k) x"
proof -
  have "idx (2 ^ k) (x + of_nat (2 ^ k)) = (unat x + 2 ^ k) mod 2 ^ k"
    by (rule idx_offset [OF assms])
  then show ?thesis
    by (simp add: idx_mod)
qed

lemma nz_full: 
  assumes "1 \<le> k" "k < 64" shows "1 - (2::size_t) ^ k \<noteq> 0"
proof
  assume "1 - (2::size_t) ^ k = 0"
  then have "(2::size_t) ^ k = 1" by simp
  then have "unat ((2::size_t) ^ k) = 1" by simp
  then have "(2::nat) ^ k = 1" using assms by (simp add: unat_cap)
  then show False using assms by simp
qed

lemma sint_neg_iff: "sint (w :: size_t) < 0 \<longleftrightarrow> 2 ^ 63 \<le> unat w"
proof -
  have lt: "unat w < 2 ^ 64"
    using unsigned_less [of w, where 'a = nat] by simp
  have "sint w < 0 \<longleftrightarrow> bit w 63"
    using bit_last_iff [of w] by simp
  also have "\<dots> \<longleftrightarrow> bit (unat w) 63"
    by (simp add: bit_unsigned_iff)
  also have "\<dots> \<longleftrightarrow> odd (unat w div 2 ^ 63)"
    by (simp only: bit_iff_odd)
  also have "\<dots> \<longleftrightarrow> 2 ^ 63 \<le> unat w"
  proof (cases "unat w < 2 ^ 63")
    case True
    then show ?thesis by simp
  next
    case False
    then have "unat w div 2 ^ 63 = 1"
      using lt by simp
    then show ?thesis using False by simp
  qed
  finally show ?thesis .
qed

lemma sint_full: 
  assumes "1 \<le> k" "k < 64" shows "sint (1 - (2::size_t) ^ k) < 0"
proof -
  have le: "(2::nat) ^ k \<le> 2 ^ 63"
    by (rule power_increasing) (use assms in simp_all)
  have ge: "(2::nat) ^ 1 \<le> 2 ^ k"
    by (rule power_increasing) (use assms in simp_all)
  have "unat (1 - (2::size_t) ^ k) =
      (if unat ((2::size_t) ^ k) \<le> unat (1::size_t) then unat (1::size_t) - unat ((2::size_t) ^ k)
       else unat (1::size_t) + 2 ^ 64 - unat ((2::size_t) ^ k))"
    using unat_sub_if_size [of "1::size_t" "2 ^ k"] by (simp add: word_size)
  then have "unat (1 - (2::size_t) ^ k) = 1 + 2 ^ 64 - 2 ^ k"
    using ge assms by (simp add: unat_cap)
  then have "2 ^ 63 \<le> unat (1 - (2::size_t) ^ k)"
    using le by simp
  then show ?thesis
    by (simp only: sint_neg_iff)
qed

lemma power_of_two_nat:
  fixes n :: nat
  shows "0 < n \<Longrightarrow> n AND (n - 1) = 0 \<Longrightarrow> \<exists>k. n = 2 ^ k"
proof (induction n rule: less_induct)
  case (less n)
  show ?case
  proof (cases "even n")
    case True
    then obtain m where m: "n = 2 * m"
      by (auto elim: evenE)
    then have pos: "0 < m"
      using less.prems(1) by simp
    have "n - 1 = 2 * (m - 1) + 1"
      using m pos by simp
    then have "n AND (n - 1) = 2 * (m AND (m - 1))"
      unfolding m by (subst and_nat_rec) (use pos in simp)
    then have "m AND (m - 1) = 0"
      using less.prems(2) by simp
    moreover have "m < n"
      using m pos by simp
    ultimately obtain k where "m = 2 ^ k"
      using less.IH pos by blast
    then have "n = 2 ^ Suc k"
      using m by simp
    then show ?thesis
      by blast
  next
    case False
    then obtain m where m: "n = 2 * m + 1"
      by (auto elim: oddE)
    have "n AND (n - 1) = 2 * m"
      unfolding m by (subst and_nat_rec) simp
    then have "m = 0"
      using less.prems(2) by simp
    then have "n = 2 ^ 0"
      using m by simp
    then show ?thesis
      by blast
  qed
qed

text \<open>
  The capacities that pass the two \<^verbatim>\<open>static_assert\<close>s are the powers of two \<open>2 ^ k\<close> with
  \<open>k < 64\<close>, capacity 1 among them. Everything below is stated for a capacity \<open>2 ^ k\<close>.
\<close>

lemma valid_capacity_power_of_two:
  "valid_capacity Capacity \<longleftrightarrow> (\<exists>k < 64. Capacity = 2 ^ k)"
proof
  assume v: "valid_capacity Capacity"
  then have nz: "Capacity \<noteq> 0" and a: "Capacity AND (Capacity - 1) = 0"
    by (auto simp: valid_capacity_def)
  have pos: "0 < unat Capacity"
    using nz by (simp add: unat_gt_0)
  have "unat (Capacity AND (Capacity - 1)) = unat Capacity AND unat (Capacity - 1)"
    by (simp add: unsigned_and_eq)
  then have "unat Capacity AND (unat Capacity - 1) = 0"
    using a unat_minus_one [OF nz] by simp
  from power_of_two_nat [OF pos this]
  obtain k where k: "unat Capacity = 2 ^ k"
    by blast
  have "unat Capacity < 2 ^ 64"
    using unsigned_less [of Capacity, where 'a = nat] by simp
  then have lt: "(2 :: nat) ^ k < 2 ^ 64"
    using k by simp
  have one: "(1 :: nat) < 2"
    by simp
  have k64: "k < 64"
    by (rule power_less_imp_less_exp [OF one lt])
  then have "unat Capacity = unat ((2 :: size_t) ^ k)"
    using k by (simp add: unat_cap)
  then have "Capacity = 2 ^ k"
    by (rule unsigned_word_eqI)
  then show "\<exists>k < 64. Capacity = 2 ^ k"
    using k64 by blast
next
  assume "\<exists>k < 64. Capacity = 2 ^ k"
  then obtain k where k: "k < 64" "Capacity = 2 ^ k"
    by blast
  have "idx (2 ^ k) (2 ^ k) = 0"
    using k by (simp add: idx_mod unat_cap)
  then have "unat ((2 :: size_t) ^ k AND (2 ^ k - 1)) = 0"
    by (simp only: idx_def)
  then have "(2 :: size_t) ^ k AND (2 ^ k - 1) = 0"
    by (simp only: unat_eq_zero)
  then have "Capacity AND (Capacity - 1) = 0"
    using k by simp
  moreover have "unat Capacity \<noteq> 0"
    using k by (simp add: unat_cap)
  then have "0 < Capacity"
    by (simp add: word_greater_zero_iff unat_eq_zero)
  ultimately show "valid_capacity Capacity"
    by (simp add: valid_capacity_def)
qed

section \<open>The sequenced-slot queue: invariant, contents and calls\<close>

lemma tail_plus_count: "(t :: size_t) + of_nat (unat (h - t)) = h"
  by simp

lemma mpmc_inv_new:
  assumes "k < 64" shows "mpmc_inv (2 ^ k) (MPMCQueue_new (2 ^ k) T)"
proof -
  have "idx (2 ^ k) (of_nat j) = j" if "j < 2 ^ k" for j
  proof -
    have "j < 2 ^ 64" using that pow_lt_64 [OF assms] by simp
    then have "unat (of_nat j :: size_t) = j"
      by (simp add: unat_of_nat)
    then show ?thesis using that by (simp add: idx_mod)
  qed
  then show ?thesis
    using assms by (simp add: mpmc_inv_def MPMCQueue_new_def unat_cap)
qed

lemma unat_succ_count:
  assumes "unat (x :: size_t) < 2 ^ k" "k < 64"
  shows "unat (x + 1) = unat x + 1"
proof -
  have "unat x + unat (1 :: size_t) < 2 ^ 64"
    using assms pow_lt_64 [of k] by simp
  then have "unat (x + 1) = unat x + unat (1 :: size_t)"
    using unat_add_lem [of x 1] by simp
  then show ?thesis by simp
qed

lemma enqueue_not_full:
  assumes k: "k < 64" and inv: "mpmc_inv (2 ^ k) q"
    and nf: "unat (q_head q - q_tail q) < 2 ^ k"
  shows "enqueue (2 ^ k) q v =
    Some (q\<lparr>q_head := q_head q + 1,
            q_slots := (q_slots q)[idx (2 ^ k) (q_head q) :=
              \<lparr>sequence = q_head q + 1, element = v\<rparr>]\<rparr>, True)"
proof -
  let ?n = "unat (q_head q - q_tail q)"
  have "?n \<in> {0..<unat ((2::size_t) ^ k)}"
    using nf k by (simp add: unat_cap)
  then have "sequence (q_slots q ! idx (2 ^ k) (q_tail q + of_nat ?n)) =
      q_tail q + of_nat ?n + (if ?n < ?n then 1 else 0)"
    using inv unfolding mpmc_inv_def by blast
  then have seq: "sequence (q_slots q ! idx (2 ^ k) (q_head q)) = q_head q"
    by (simp only: tail_plus_count) simp
  show ?thesis
    unfolding enqueue_def
    by (subst enqueue_loop.simps) (simp add: Let_def seq idx_def [symmetric])
qed

lemma mpmc_inv_enqueue:
  assumes k: "k < 64" and inv: "mpmc_inv (2 ^ k) q"
    and nf: "unat (q_head q - q_tail q) < 2 ^ k"
  shows "mpmc_inv (2 ^ k) (q\<lparr>q_head := q_head q + 1,
            q_slots := (q_slots q)[idx (2 ^ k) (q_head q) :=
              \<lparr>sequence = q_head q + 1, element = v\<rparr>]\<rparr>)"
proof -
  let ?C = "(2::size_t) ^ k"
  let ?h = "q_head q" and ?t = "q_tail q"
  let ?n = "unat (?h - ?t)"
  let ?s = "\<lparr>sequence = ?h + 1, element = v\<rparr>"
  have len: "length (q_slots q) = 2 ^ k"
    using inv k by (simp add: mpmc_inv_def unat_cap)
  have cnt: "unat (?h + 1 - ?t) = ?n + 1"
  proof -
    have e: "?h + 1 - ?t = (?h - ?t) + 1" by simp
    show ?thesis unfolding e by (rule unat_succ_count [OF nf k])
  qed
  have slots: "sequence ((q_slots q)[idx ?C ?h := ?s] ! idx ?C (?t + of_nat j)) =
      ?t + of_nat j + (if j < ?n + 1 then 1 else 0)" if j: "j < 2 ^ k" for j
  proof (cases "j = ?n")
    case True
    have "idx ?C ?h < length (q_slots q)"
      using len idx_lt [of k ?h] by simp
    then show ?thesis
      using True by (simp add: tail_plus_count)
  next
    case False
    have "idx ?C (?t + of_nat j) \<noteq> idx ?C (?t + of_nat ?n)"
      using idx_inj [OF k j nf] False by blast
    then have ne: "idx ?C (?t + of_nat j) \<noteq> idx ?C ?h"
      by simp
    have "j \<in> {0..<unat ?C}"
      using j k by (simp add: unat_cap)
    then have "sequence (q_slots q ! idx ?C (?t + of_nat j)) =
        ?t + of_nat j + (if j < ?n then 1 else 0)"
      using inv unfolding mpmc_inv_def by blast
    then show ?thesis
      using ne False by (simp add: nth_list_update_neq)
  qed
  show ?thesis
    unfolding mpmc_inv_def using len nf k slots by (simp add: cnt unat_cap)
qed

lemma mpmc_inv_slot:
  assumes "mpmc_inv (2 ^ k) q" "k < 64" "j < 2 ^ k"
  shows "sequence (q_slots q ! idx (2 ^ k) (q_tail q + of_nat j)) =
     q_tail q + of_nat j + (if j < unat (q_head q - q_tail q) then 1 else 0)"
proof -
  have "j \<in> {0..<unat ((2::size_t) ^ k)}"
    using assms by (simp add: unat_cap)
  then show ?thesis
    using assms(1) unfolding mpmc_inv_def by blast
qed

lemma mpmc_inv_first:
  assumes "mpmc_inv (2 ^ k) q" "k < 64"
  shows "sequence (q_slots q ! idx (2 ^ k) (q_tail q)) =
     q_tail q + (if q_head q = q_tail q then 0 else 1)"
proof -
  have "unat (q_head q - q_tail q) = 0 \<longleftrightarrow> q_head q = q_tail q"
    by (simp add: unat_eq_zero)
  then show ?thesis
    using mpmc_inv_slot [OF assms, of 0] by auto
qed

lemma enqueue_full:
  assumes k: "1 \<le> k" "k < 64" and inv: "mpmc_inv (2 ^ k) q"
    and full: "unat (q_head q - q_tail q) = 2 ^ k"
  shows "enqueue (2 ^ k) q v = Some (q, False)"
proof -
  let ?C = "(2::size_t) ^ k"
  have "unat (q_head q - q_tail q) = unat ?C"
    using full k by (simp add: unat_cap)
  then have diff: "q_head q - q_tail q = ?C"
    by (rule unsigned_word_eqI)
  then have h: "q_head q = q_tail q + ?C"
    by (metis add.commute diff_add_cancel)
  have ne: "q_head q \<noteq> q_tail q"
    using diff k by auto
  have "idx ?C (q_head q) = idx ?C (q_tail q)"
    unfolding h by (rule idx_wrap [OF k(2)])
  then have "sequence (q_slots q ! idx ?C (q_head q)) = q_tail q + 1"
    using mpmc_inv_first [OF inv k(2)] ne by simp
  then have d: "sequence (q_slots q ! idx ?C (q_head q)) - q_head q = 1 - ?C"
    unfolding h by simp
  have neg: "sint (sequence (q_slots q ! idx ?C (q_head q)) - q_head q) < 0"
    unfolding d by (rule sint_full [OF k])
  have "sequence (q_slots q ! idx ?C (q_head q)) - q_head q \<noteq> 0"
    unfolding d by (rule nz_full [OF k])
  then have "sequence (q_slots q ! idx ?C (q_head q)) \<noteq> q_head q"
    by simp
  then show ?thesis
    unfolding enqueue_def using neg
    by (subst enqueue_loop.simps) (simp add: Let_def idx_def [symmetric])
qed

lemma dequeue_nonempty:
  assumes k: "k < 64" and inv: "mpmc_inv (2 ^ k) q" and ne: "q_head q \<noteq> q_tail q"
  shows "dequeue (2 ^ k) T q r =
    Some (q\<lparr>q_tail := q_tail q + 1,
            q_slots := (q_slots q)[idx (2 ^ k) (q_tail q) :=
              \<lparr>sequence = q_tail q + 2 ^ k,
               element = T_moved T (element (q_slots q ! idx (2 ^ k) (q_tail q)))\<rparr>]\<rparr>,
          True, element (q_slots q ! idx (2 ^ k) (q_tail q)))"
proof -
  have "sequence (q_slots q ! idx (2 ^ k) (q_tail q)) = q_tail q + 1"
    using mpmc_inv_first [OF inv k] ne by simp
  then show ?thesis
    unfolding dequeue_def
    by (subst dequeue_loop.simps) (simp add: Let_def idx_def [symmetric])
qed

lemma dequeue_empty:
  assumes k: "k < 64" and inv: "mpmc_inv (2 ^ k) q" and e: "q_head q = q_tail q"
  shows "dequeue (2 ^ k) T q r = Some (q, False, r)"
proof -
  have "sequence (q_slots q ! idx (2 ^ k) (q_tail q)) = q_tail q"
    using mpmc_inv_first [OF inv k] e by simp
  then show ?thesis
    unfolding dequeue_def
    by (subst dequeue_loop.simps) (simp add: Let_def idx_def [symmetric])
qed

lemma mpmc_inv_dequeue:
  assumes k: "k < 64" and inv: "mpmc_inv (2 ^ k) q" and ne: "q_head q \<noteq> q_tail q"
  shows "mpmc_inv (2 ^ k) (q\<lparr>q_tail := q_tail q + 1,
            q_slots := (q_slots q)[idx (2 ^ k) (q_tail q) :=
              \<lparr>sequence = q_tail q + 2 ^ k, element = x\<rparr>]\<rparr>)"
proof -
  let ?C = "(2::size_t) ^ k"
  let ?h = "q_head q" and ?t = "q_tail q"
  let ?n = "unat (?h - ?t)"
  let ?s = "\<lparr>sequence = ?t + ?C, element = x\<rparr>"
  have len: "length (q_slots q) = 2 ^ k"
    using inv k by (simp add: mpmc_inv_def unat_cap)
  have le: "?n \<le> 2 ^ k"
    using inv k by (simp add: mpmc_inv_def unat_cap)
  have nz: "?h - ?t \<noteq> 0"
    using ne by simp
  have cnt: "unat (?h - (?t + 1)) = ?n - 1"
  proof -
    have e: "?h - (?t + 1) = (?h - ?t) - 1" by simp
    show ?thesis unfolding e by (rule unat_minus_one [OF nz])
  qed
  have pos: "0 < ?n"
    using nz by (simp add: unat_gt_0)
  have in_range: "idx ?C ?t < length (q_slots q)"
    using len idx_lt [of k ?t] by simp
  have slots: "sequence ((q_slots q)[idx ?C ?t := ?s] ! idx ?C (?t + 1 + of_nat j)) =
      ?t + 1 + of_nat j + (if j < ?n - 1 then 1 else 0)" if j: "j < 2 ^ k" for j
  proof (cases "Suc j = 2 ^ k")
    case True
    have "(1 :: size_t) + of_nat j = of_nat (Suc j)"
      by simp
    also have "\<dots> = ?C"
      unfolding True by simp
    finally have e: "?t + 1 + of_nat j = ?t + ?C"
      by (simp add: add.assoc)
    have w: "idx ?C (?t + ?C) = idx ?C ?t"
      by (rule idx_wrap [OF k])
    have "\<not> j < ?n - 1"
      using le True by simp
    then show ?thesis
      unfolding e w using in_range by simp
  next
    case False
    then have sj: "Suc j < 2 ^ k"
      using j by simp
    have e: "?t + 1 + of_nat j = ?t + of_nat (Suc j)"
      by simp
    have z: "(0::nat) < 2 ^ k" by simp
    have "idx ?C (?t + of_nat (Suc j)) \<noteq> idx ?C (?t + of_nat 0)"
      using idx_inj [OF k sj z, of ?t] by blast
    then have neq: "idx ?C (?t + 1 + of_nat j) \<noteq> idx ?C ?t"
      unfolding e by simp
    have "sequence (q_slots q ! idx ?C (?t + of_nat (Suc j))) =
       ?t + of_nat (Suc j) + (if Suc j < ?n then 1 else 0)"
      by (rule mpmc_inv_slot [OF inv k sj])
    moreover have "Suc j < ?n \<longleftrightarrow> j < ?n - 1"
      using pos by auto
    ultimately show ?thesis
      using neq unfolding e by (simp add: nth_list_update_neq)
  qed
  have "unat (?h - (?t + 1)) \<le> 2 ^ k"
    using le cnt by simp
  then show ?thesis
    unfolding mpmc_inv_def using len k slots by (simp add: cnt unat_cap)
qed

lemma length_mpmc_contents:
  "length (mpmc_contents Capacity q) = unat (q_head q - q_tail q)"
  by (simp add: mpmc_contents_def)

lemma mpmc_contents_enqueue:
  assumes k: "k < 64" and nf: "unat (q_head q - q_tail q) < 2 ^ k"
    and len: "length (q_slots q) = 2 ^ k"
  shows "mpmc_contents (2 ^ k) (q\<lparr>q_head := q_head q + 1,
            q_slots := (q_slots q)[idx (2 ^ k) (q_head q) :=
              \<lparr>sequence = s, element = v\<rparr>]\<rparr>) = mpmc_contents (2 ^ k) q @ [v]"
proof -
  let ?C = "(2::size_t) ^ k"
  let ?h = "q_head q" and ?t = "q_tail q"
  let ?n = "unat (?h - ?t)"
  let ?slots = "(q_slots q)[idx ?C ?h := \<lparr>sequence = s, element = v\<rparr>]"
  have cnt: "unat (?h + 1 - ?t) = Suc ?n"
  proof -
    have e: "?h + 1 - ?t = (?h - ?t) + 1" by simp
    show ?thesis unfolding e using unat_succ_count [OF nf k] by simp
  qed
  have old: "element (?slots ! idx ?C (?t + of_nat j)) =
      element (q_slots q ! idx ?C (?t + of_nat j))" if "j < ?n" for j
  proof -
    have "j < 2 ^ k" using that nf by simp
    then have "idx ?C (?t + of_nat j) \<noteq> idx ?C (?t + of_nat ?n)"
      using idx_inj [OF k _ nf, of j ?t] that by blast
    then have "idx ?C (?t + of_nat j) \<noteq> idx ?C ?h"
      by simp
    then show ?thesis
      by (simp add: nth_list_update_neq)
  qed
  have "idx ?C ?h < length (q_slots q)"
    using len idx_lt [of k ?h] by simp
  then have new: "element (?slots ! idx ?C (?t + of_nat ?n)) = v"
    by (simp add: tail_plus_count)
  show ?thesis
    unfolding mpmc_contents_def using old new by (simp add: cnt)
qed

lemma mpmc_contents_dequeue:
  assumes k: "k < 64" and ne: "q_head q \<noteq> q_tail q"
    and le: "unat (q_head q - q_tail q) \<le> 2 ^ k"
  shows "mpmc_contents (2 ^ k) q =
     element (q_slots q ! idx (2 ^ k) (q_tail q)) #
     mpmc_contents (2 ^ k) (q\<lparr>q_tail := q_tail q + 1,
            q_slots := (q_slots q)[idx (2 ^ k) (q_tail q) := s]\<rparr>)"
proof -
  let ?C = "(2::size_t) ^ k"
  let ?h = "q_head q" and ?t = "q_tail q"
  let ?n = "unat (?h - ?t)"
  let ?slots = "(q_slots q)[idx ?C ?t := s]"
  have nz: "?h - ?t \<noteq> 0"
    using ne by simp
  have cnt: "unat (?h - (?t + 1)) = ?n - 1"
  proof -
    have e: "?h - (?t + 1) = (?h - ?t) - 1" by simp
    show ?thesis unfolding e by (rule unat_minus_one [OF nz])
  qed
  have pos: "0 < ?n"
    using nz by (simp add: unat_gt_0)
  have rest: "element (?slots ! idx ?C (?t + 1 + of_nat j)) =
      element (q_slots q ! idx ?C (?t + of_nat (Suc j)))" if "j < ?n - 1" for j
  proof -
    have sj: "Suc j < 2 ^ k" using that le by simp
    have z: "(0::nat) < 2 ^ k" by simp
    have e: "?t + 1 + of_nat j = ?t + of_nat (Suc j)"
      by simp
    have "idx ?C (?t + of_nat (Suc j)) \<noteq> idx ?C (?t + of_nat 0)"
      using idx_inj [OF k sj z, of ?t] by blast
    then have "idx ?C (?t + 1 + of_nat j) \<noteq> idx ?C ?t"
      unfolding e by simp
    then show ?thesis
      unfolding e by (simp add: nth_list_update_neq)
  qed
  have "[0..<?n] = 0 # map Suc [0..<?n - 1]"
    using pos by (simp add: map_Suc_upt upt_conv_Cons)
  then have "mpmc_contents ?C q =
      element (q_slots q ! idx ?C ?t) #
      map (\<lambda>j. element (q_slots q ! idx ?C (?t + of_nat (Suc j)))) [0..<?n - 1]"
    unfolding mpmc_contents_def by (simp add: comp_def)
  then show ?thesis
    using rest by (simp add: mpmc_contents_def cnt)
qed

lemma mpmc_enq_step:
  assumes k: "k < 64" and inv: "mpmc_inv (2 ^ k) q"
    and nf: "length (mpmc_contents (2 ^ k) q) < 2 ^ k"
  shows "\<exists>q'. enqueue (2 ^ k) q v = Some (q', True) \<and> mpmc_inv (2 ^ k) q' \<and>
     mpmc_contents (2 ^ k) q' = mpmc_contents (2 ^ k) q @ [v] \<and>
     q_tail q' = q_tail q \<and> q_head q' = q_head q + 1"
proof -
  have nf': "unat (q_head q - q_tail q) < 2 ^ k"
    using nf by (simp add: length_mpmc_contents)
  have len: "length (q_slots q) = 2 ^ k"
    using inv k by (simp add: mpmc_inv_def unat_cap)
  show ?thesis
    using enqueue_not_full [OF k inv nf', of v] mpmc_inv_enqueue [OF k inv nf', of v]
      mpmc_contents_enqueue [OF k nf' len, of "q_head q + 1" v]
    by simp
qed

lemma mpmc_enq_full_step:
  assumes k: "1 \<le> k" "k < 64" and inv: "mpmc_inv (2 ^ k) q"
    and full: "length (mpmc_contents (2 ^ k) q) = 2 ^ k"
  shows "enqueue (2 ^ k) q v = Some (q, False)"
  using enqueue_full [OF k inv] full by (simp add: length_mpmc_contents)

lemma mpmc_contents_Nil_iff: "mpmc_contents Capacity q = [] \<longleftrightarrow> q_head q = q_tail q"
  by (simp add: mpmc_contents_def unat_eq_zero)

lemma mpmc_deq_step:
  assumes k: "k < 64" and inv: "mpmc_inv (2 ^ k) q"
    and ne: "mpmc_contents (2 ^ k) q = x # xs"
  shows "\<exists>q'. dequeue (2 ^ k) T q r = Some (q', True, x) \<and> mpmc_inv (2 ^ k) q' \<and>
     mpmc_contents (2 ^ k) q' = xs \<and>
     q_head q' = q_head q \<and> q_tail q' = q_tail q + 1"
proof -
  have ne': "q_head q \<noteq> q_tail q"
    using ne mpmc_contents_Nil_iff [of "2 ^ k" q] by auto
  have le: "unat (q_head q - q_tail q) \<le> 2 ^ k"
    using inv k by (simp add: mpmc_inv_def unat_cap)
  show ?thesis
    using dequeue_nonempty [OF k inv ne', of T r] mpmc_inv_dequeue [OF k inv ne']
      mpmc_contents_dequeue [OF k ne' le] ne
    by simp
qed

lemma mpmc_deq_empty_step:
  assumes k: "k < 64" and inv: "mpmc_inv (2 ^ k) q"
    and e: "mpmc_contents (2 ^ k) q = []"
  shows "dequeue (2 ^ k) T q r = Some (q, False, r)"
  using dequeue_empty [OF k inv] e by (simp add: mpmc_contents_Nil_iff)

lemma mpmc_run_append:
  "mpmc_run Capacity T q (a @ b) =
     (case mpmc_run Capacity T q a of
        None \<Rightarrow> None
      | Some (q', rs) \<Rightarrow>
          (case mpmc_run Capacity T q' b of
             None \<Rightarrow> None
           | Some (q'', rs') \<Rightarrow> Some (q'', rs @ rs')))"
  by (induction a arbitrary: q) (auto split: option.splits)

lemma mpmc_fill:
  assumes k: "k < 64"
  shows "mpmc_inv (2 ^ k) q \<Longrightarrow> length (mpmc_contents (2 ^ k) q) + length vs \<le> 2 ^ k \<Longrightarrow>
    \<exists>q'. mpmc_run (2 ^ k) T q (map Enq vs) = Some (q', map (\<lambda>v. EnqR True) vs) \<and>
      mpmc_inv (2 ^ k) q' \<and> mpmc_contents (2 ^ k) q' = mpmc_contents (2 ^ k) q @ vs \<and>
      q_tail q' = q_tail q \<and> q_head q' = q_head q + of_nat (length vs)"
proof (induction vs arbitrary: q)
  case Nil
  then show ?case by simp
next
  case (Cons v vs)
  have "length (mpmc_contents (2 ^ k) q) < 2 ^ k"
    using Cons.prems(2) by simp
  from mpmc_enq_step [OF k Cons.prems(1) this, of v]
  obtain q1 where q1: "enqueue (2 ^ k) q v = Some (q1, True)" "mpmc_inv (2 ^ k) q1"
    "mpmc_contents (2 ^ k) q1 = mpmc_contents (2 ^ k) q @ [v]"
    "q_tail q1 = q_tail q" "q_head q1 = q_head q + 1"
    by blast
  have "length (mpmc_contents (2 ^ k) q1) + length vs \<le> 2 ^ k"
    using Cons.prems(2) q1(3) by simp
  from Cons.IH [OF q1(2) this]
  obtain q' where q': "mpmc_run (2 ^ k) T q1 (map Enq vs) = Some (q', map (\<lambda>v. EnqR True) vs)"
    "mpmc_inv (2 ^ k) q'" "mpmc_contents (2 ^ k) q' = mpmc_contents (2 ^ k) q1 @ vs"
    "q_tail q' = q_tail q1" "q_head q' = q_head q1 + of_nat (length vs)"
    by blast
  show ?case
    using q1 q' by simp
qed

lemma mpmc_drain:
  assumes k: "k < 64"
  shows "mpmc_inv (2 ^ k) q \<Longrightarrow> mpmc_contents (2 ^ k) q = xs @ ys \<Longrightarrow>
    \<exists>q'. mpmc_run (2 ^ k) T q (replicate (length xs) Deq) =
        Some (q', map (\<lambda>x. DeqR (Some x)) xs) \<and>
      mpmc_inv (2 ^ k) q' \<and> mpmc_contents (2 ^ k) q' = ys \<and>
      q_head q' = q_head q \<and> q_tail q' = q_tail q + of_nat (length xs)"
proof (induction xs arbitrary: q)
  case Nil
  then show ?case by simp
next
  case (Cons x xs)
  have "mpmc_contents (2 ^ k) q = x # (xs @ ys)"
    using Cons.prems(2) by simp
  from mpmc_deq_step [OF k Cons.prems(1) this, of T "T_default_init T 0"]
  obtain q1 where q1: "dequeue (2 ^ k) T q (T_default_init T 0) = Some (q1, True, x)"
    "mpmc_inv (2 ^ k) q1" "mpmc_contents (2 ^ k) q1 = xs @ ys"
    "q_head q1 = q_head q" "q_tail q1 = q_tail q + 1"
    by blast
  from Cons.IH [OF q1(2) q1(3)]
  obtain q' where q': "mpmc_run (2 ^ k) T q1 (replicate (length xs) Deq) =
      Some (q', map (\<lambda>x. DeqR (Some x)) xs)"
    "mpmc_inv (2 ^ k) q'" "mpmc_contents (2 ^ k) q' = ys"
    "q_head q' = q_head q1" "q_tail q' = q_tail q1 + of_nat (length xs)"
    by blast
  show ?case
    using q1 q' by (simp add: dequeue_opt_def)
qed

lemma mpmc_step_total:
  assumes k: "1 \<le> k" "k < 64" and inv: "mpmc_inv (2 ^ k) q"
  shows "\<exists>q' r. mpmc_step (2 ^ k) T q x = Some (q', r) \<and> mpmc_inv (2 ^ k) q' \<and> mpmc_moves q q'"
proof -
  have le: "length (mpmc_contents (2 ^ k) q) \<le> 2 ^ k"
    using inv k by (simp add: mpmc_inv_def unat_cap length_mpmc_contents)
  have deq: "\<exists>q' ok r'. dequeue (2 ^ k) T q r = Some (q', ok, r') \<and> mpmc_inv (2 ^ k) q' \<and>
      mpmc_moves q q'" for r
  proof (cases "mpmc_contents (2 ^ k) q")
    case Nil
    then show ?thesis
      using mpmc_deq_empty_step [OF k(2) inv Nil, of T r] inv by (auto simp: mpmc_moves_def)
  next
    case (Cons y ys)
    then have "q_head q \<noteq> q_tail q"
      using mpmc_contents_Nil_iff [of "2 ^ k" q] by auto
    then show ?thesis
      using mpmc_deq_step [OF k(2) inv Cons, of T r] by (auto simp: mpmc_moves_def)
  qed
  show ?thesis
  proof (cases x)
    case (Enq v)
    show ?thesis
    proof (cases "length (mpmc_contents (2 ^ k) q) < 2 ^ k")
      case True
      show ?thesis
        using mpmc_enq_step [OF k(2) inv True, of v] Enq by (auto simp: mpmc_moves_def)
    next
      case False
      then have "length (mpmc_contents (2 ^ k) q) = 2 ^ k"
        using le by simp
      then show ?thesis
        using mpmc_enq_full_step [OF k inv, of v] inv Enq by (simp add: mpmc_moves_def)
    qed
  next
    case (DeqOut r)
    then show ?thesis
      using deq [of r] by auto
  next
    case Deq
    then show ?thesis
      using deq [of "T_default_init T 0"] by (auto simp: dequeue_opt_def)
  qed
qed

lemma mpmc_run_total:
  assumes k: "1 \<le> k" "k < 64"
  shows "mpmc_inv (2 ^ k) q \<Longrightarrow>
    \<exists>q' rs. mpmc_run (2 ^ k) T q ops = Some (q', rs) \<and> mpmc_inv (2 ^ k) q'"
proof (induction ops arbitrary: q)
  case Nil
  then show ?case by simp
next
  case (Cons x ops)
  from mpmc_step_total [OF k Cons.prems, of T x]
  obtain q1 r where q1: "mpmc_step (2 ^ k) T q x = Some (q1, r)" "mpmc_inv (2 ^ k) q1"
    by blast
  from Cons.IH [OF q1(2)]
  obtain q' rs where "mpmc_run (2 ^ k) T q1 ops = Some (q', rs)" "mpmc_inv (2 ^ k) q'"
    by blast
  then show ?case
    using q1 by simp
qed

lemma mpmc_reachable_inv:
  assumes k: "1 \<le> k" "k < 64" and r: "mpmc_reachable (2 ^ k) T q"
  shows "mpmc_inv (2 ^ k) q"
proof -
  from r obtain ops rs where
    run: "mpmc_run (2 ^ k) T (MPMCQueue_new (2 ^ k) T) ops = Some (q, rs)"
    unfolding mpmc_reachable_def by blast
  from mpmc_run_total [OF k mpmc_inv_new [OF k(2)], of T T ops]
  show ?thesis
    using run by auto
qed



section \<open>The ring buffer: invariant, contents and calls\<close>

lemma length_rb_contents:
  "length (rb_contents Capacity q) = unat (rb_head q - rb_tail q)"
  by (simp add: rb_contents_def)

lemma rb_contents_Nil_iff: "rb_contents Capacity q = [] \<longleftrightarrow> rb_head q = rb_tail q"
  by (simp add: rb_contents_def unat_eq_zero)

lemma rb_inv_new:
  assumes "k < 64" shows "rb_inv (2 ^ k) (RingBuffer_new (2 ^ k) T)"
  by (simp add: rb_inv_def RingBuffer_new_def)

lemma try_enqueue_not_full:
  assumes k: "k < 64" and nf: "unat (rb_head q - rb_tail q) < 2 ^ k"
  shows "try_enqueue (2 ^ k) q v =
    (q\<lparr>rb_buffer := (rb_buffer q)[idx (2 ^ k) (rb_head q) := v],
       rb_head := rb_head q + 1\<rparr>, True)"
proof -
  have e: "rb_head q + 1 - rb_tail q = (rb_head q - rb_tail q) + 1" by simp
  have "unat (rb_head q + 1 - rb_tail q) = unat (rb_head q - rb_tail q) + 1"
    unfolding e by (rule unat_succ_count [OF nf k])
  then have "\<not> (2 ^ k < rb_head q + 1 - rb_tail q)"
    using nf k by (simp add: word_less_nat_alt unat_cap)
  then show ?thesis
    by (simp add: try_enqueue_def Let_def idx_def)
qed

lemma try_enqueue_full:
  assumes k: "k < 64" and full: "unat (rb_head q - rb_tail q) = 2 ^ k"
  shows "try_enqueue (2 ^ k) q v = (q, False)"
proof -
  have e: "rb_head q + 1 - rb_tail q = (rb_head q - rb_tail q) + 1" by simp
  have "(2::nat) ^ k \<le> 2 ^ 63"
    by (rule power_increasing) (use k in simp_all)
  then have "unat (rb_head q - rb_tail q) + unat (1 :: size_t) < 2 ^ 64"
    using full by simp
  then have "unat ((rb_head q - rb_tail q) + 1) = unat (rb_head q - rb_tail q) + unat (1 :: size_t)"
    using unat_add_lem [of "rb_head q - rb_tail q" 1] by simp
  then have "unat (rb_head q + 1 - rb_tail q) = 2 ^ k + 1"
    unfolding e using full by simp
  then have "2 ^ k < rb_head q + 1 - rb_tail q"
    using k by (simp add: word_less_nat_alt unat_cap)
  then show ?thesis
    by (simp add: try_enqueue_def Let_def)
qed

lemma try_dequeue_nonempty:
  assumes "rb_tail q < rb_head q"
  shows "try_dequeue Capacity T q r =
    (q\<lparr>rb_buffer := (rb_buffer q)[idx Capacity (rb_tail q) :=
          T_moved T (rb_buffer q ! idx Capacity (rb_tail q))],
       rb_tail := rb_tail q + 1\<rparr>, True, rb_buffer q ! idx Capacity (rb_tail q))"
  using assms by (simp add: try_dequeue_def Let_def idx_def not_le [symmetric])

lemma try_dequeue_empty:
  assumes "rb_head q \<le> rb_tail q"
  shows "try_dequeue Capacity T q r = (q, False, r)"
  using assms by (simp add: try_dequeue_def Let_def)

lemma try_dequeue_opt_eq:
  "try_dequeue_opt Capacity T q =
     (case try_dequeue Capacity T q r of (q', ok, x) \<Rightarrow> (q', if ok then Some x else None))"
  by (simp add: try_dequeue_opt_def try_dequeue_def Let_def)

lemma rb_inv_enqueue:
  assumes k: "k < 64" and inv: "rb_inv (2 ^ k) q"
    and nf: "unat (rb_head q - rb_tail q) < 2 ^ k"
  shows "rb_inv (2 ^ k) (q\<lparr>rb_buffer := (rb_buffer q)[i := v], rb_head := rb_head q + 1\<rparr>)"
proof -
  have e: "rb_head q + 1 - rb_tail q = (rb_head q - rb_tail q) + 1" by simp
  have "unat (rb_head q + 1 - rb_tail q) = unat (rb_head q - rb_tail q) + 1"
    unfolding e by (rule unat_succ_count [OF nf k])
  then show ?thesis
    using inv nf k by (simp add: rb_inv_def unat_cap)
qed

lemma rb_inv_dequeue:
  assumes inv: "rb_inv Capacity q" and ne: "rb_head q \<noteq> rb_tail q"
  shows "rb_inv Capacity (q\<lparr>rb_buffer := (rb_buffer q)[i := v], rb_tail := rb_tail q + 1\<rparr>)"
proof -
  have nz: "rb_head q - rb_tail q \<noteq> 0"
    using ne by simp
  have e: "rb_head q - (rb_tail q + 1) = (rb_head q - rb_tail q) - 1" by simp
  have "unat (rb_head q - (rb_tail q + 1)) = unat (rb_head q - rb_tail q) - 1"
    unfolding e by (rule unat_minus_one [OF nz])
  moreover have "length (rb_buffer q) = unat Capacity" "unat (rb_head q - rb_tail q) \<le> unat Capacity"
    using inv by (simp_all add: rb_inv_def)
  ultimately show ?thesis
    unfolding rb_inv_def by simp
qed

lemma rb_contents_enqueue:
  assumes k: "k < 64" and nf: "unat (rb_head q - rb_tail q) < 2 ^ k"
    and len: "length (rb_buffer q) = 2 ^ k"
  shows "rb_contents (2 ^ k) (q\<lparr>rb_buffer := (rb_buffer q)[idx (2 ^ k) (rb_head q) := v],
       rb_head := rb_head q + 1\<rparr>) = rb_contents (2 ^ k) q @ [v]"
proof -
  let ?C = "(2::size_t) ^ k"
  let ?h = "rb_head q" and ?t = "rb_tail q"
  let ?n = "unat (?h - ?t)"
  let ?buf = "(rb_buffer q)[idx ?C ?h := v]"
  have cnt: "unat (?h + 1 - ?t) = Suc ?n"
  proof -
    have e: "?h + 1 - ?t = (?h - ?t) + 1" by simp
    show ?thesis unfolding e using unat_succ_count [OF nf k] by simp
  qed
  have old: "?buf ! idx ?C (?t + of_nat j) = rb_buffer q ! idx ?C (?t + of_nat j)"
    if "j < ?n" for j
  proof -
    have "j < 2 ^ k" using that nf by simp
    then have "idx ?C (?t + of_nat j) \<noteq> idx ?C (?t + of_nat ?n)"
      using idx_inj [OF k _ nf, of j ?t] that by blast
    then have "idx ?C (?t + of_nat j) \<noteq> idx ?C ?h"
      by simp
    then show ?thesis
      by (simp add: nth_list_update_neq)
  qed
  have "idx ?C ?h < length (rb_buffer q)"
    using len idx_lt [of k ?h] by simp
  then have new: "?buf ! idx ?C (?t + of_nat ?n) = v"
    by (simp add: tail_plus_count)
  show ?thesis
    unfolding rb_contents_def using old new by (simp add: cnt)
qed

lemma rb_contents_dequeue:
  assumes k: "k < 64" and ne: "rb_head q \<noteq> rb_tail q"
    and le: "unat (rb_head q - rb_tail q) \<le> 2 ^ k"
  shows "rb_contents (2 ^ k) q =
     rb_buffer q ! idx (2 ^ k) (rb_tail q) #
     rb_contents (2 ^ k) (q\<lparr>rb_buffer := (rb_buffer q)[idx (2 ^ k) (rb_tail q) := s],
        rb_tail := rb_tail q + 1\<rparr>)"
proof -
  let ?C = "(2::size_t) ^ k"
  let ?h = "rb_head q" and ?t = "rb_tail q"
  let ?n = "unat (?h - ?t)"
  let ?buf = "(rb_buffer q)[idx ?C ?t := s]"
  have nz: "?h - ?t \<noteq> 0"
    using ne by simp
  have cnt: "unat (?h - (?t + 1)) = ?n - 1"
  proof -
    have e: "?h - (?t + 1) = (?h - ?t) - 1" by simp
    show ?thesis unfolding e by (rule unat_minus_one [OF nz])
  qed
  have pos: "0 < ?n"
    using nz by (simp add: unat_gt_0)
  have rest: "?buf ! idx ?C (?t + 1 + of_nat j) = rb_buffer q ! idx ?C (?t + of_nat (Suc j))"
    if "j < ?n - 1" for j
  proof -
    have sj: "Suc j < 2 ^ k" using that le by simp
    have z: "(0::nat) < 2 ^ k" by simp
    have e: "?t + 1 + of_nat j = ?t + of_nat (Suc j)"
      by simp
    have "idx ?C (?t + of_nat (Suc j)) \<noteq> idx ?C (?t + of_nat 0)"
      using idx_inj [OF k sj z, of ?t] by blast
    then have "idx ?C (?t + 1 + of_nat j) \<noteq> idx ?C ?t"
      unfolding e by simp
    then show ?thesis
      unfolding e by (simp add: nth_list_update_neq)
  qed
  have "[0..<?n] = 0 # map Suc [0..<?n - 1]"
    using pos by (simp add: map_Suc_upt upt_conv_Cons)
  then have "rb_contents ?C q =
      rb_buffer q ! idx ?C ?t #
      map (\<lambda>j. rb_buffer q ! idx ?C (?t + of_nat (Suc j))) [0..<?n - 1]"
    unfolding rb_contents_def by (simp add: comp_def)
  then show ?thesis
    using rest by (simp add: rb_contents_def cnt)
qed

lemma rb_enq_step:
  assumes k: "k < 64" and inv: "rb_inv (2 ^ k) q"
    and nf: "length (rb_contents (2 ^ k) q) < 2 ^ k"
  shows "\<exists>q'. try_enqueue (2 ^ k) q v = (q', True) \<and> rb_inv (2 ^ k) q' \<and>
     rb_contents (2 ^ k) q' = rb_contents (2 ^ k) q @ [v] \<and>
     rb_tail q' = rb_tail q \<and> rb_head q' = rb_head q + 1"
proof -
  have nf': "unat (rb_head q - rb_tail q) < 2 ^ k"
    using nf by (simp add: length_rb_contents)
  have len: "length (rb_buffer q) = 2 ^ k"
    using inv k by (simp add: rb_inv_def unat_cap)
  show ?thesis
    using try_enqueue_not_full [OF k nf', of v] rb_inv_enqueue [OF k inv nf']
      rb_contents_enqueue [OF k nf' len, of v]
    by simp
qed

lemma rb_enq_full_step:
  assumes k: "k < 64" and full: "length (rb_contents (2 ^ k) q) = 2 ^ k"
  shows "try_enqueue (2 ^ k) q v = (q, False)"
  using try_enqueue_full [OF k] full by (simp add: length_rb_contents)

lemma rb_deq_step:
  assumes k: "k < 64" and inv: "rb_inv (2 ^ k) q" and nw: "rb_tail q \<le> rb_head q"
    and ne: "rb_contents (2 ^ k) q = x # xs"
  shows "\<exists>q'. try_dequeue (2 ^ k) T q r = (q', True, x) \<and> rb_inv (2 ^ k) q' \<and>
     rb_contents (2 ^ k) q' = xs \<and>
     rb_head q' = rb_head q \<and> rb_tail q' = rb_tail q + 1"
proof -
  have ne': "rb_head q \<noteq> rb_tail q"
    using ne rb_contents_Nil_iff [of "2 ^ k" q] by auto
  then have lt: "rb_tail q < rb_head q"
    using nw by simp
  have le: "unat (rb_head q - rb_tail q) \<le> 2 ^ k"
    using inv k by (simp add: rb_inv_def unat_cap)
  show ?thesis
    using try_dequeue_nonempty [OF lt, of "2 ^ k" T r] rb_inv_dequeue [OF inv ne']
      rb_contents_dequeue [OF k ne' le] ne
    by simp
qed

lemma rb_deq_empty_step:
  assumes e: "rb_contents Capacity q = []"
  shows "try_dequeue Capacity T q r = (q, False, r)"
  using try_dequeue_empty [of q] e by (simp add: rb_contents_Nil_iff)

lemma rb_run_append:
  "rb_run Capacity T q (a @ b) =
     (case rb_run Capacity T q a of
        (q', rs) \<Rightarrow> (case rb_run Capacity T q' b of (q'', rs') \<Rightarrow> (q'', rs @ rs')))"
  by (induction a arbitrary: q) (auto split: prod.splits)

lemma rb_fill:
  assumes k: "k < 64"
  shows "rb_inv (2 ^ k) q \<Longrightarrow> length (rb_contents (2 ^ k) q) + length vs \<le> 2 ^ k \<Longrightarrow>
    \<exists>q'. rb_run (2 ^ k) T q (map Enq vs) = (q', map (\<lambda>v. EnqR True) vs) \<and>
      rb_inv (2 ^ k) q' \<and> rb_contents (2 ^ k) q' = rb_contents (2 ^ k) q @ vs \<and>
      rb_tail q' = rb_tail q \<and> rb_head q' = rb_head q + of_nat (length vs)"
proof (induction vs arbitrary: q)
  case Nil
  then show ?case by simp
next
  case (Cons v vs)
  have "length (rb_contents (2 ^ k) q) < 2 ^ k"
    using Cons.prems(2) by simp
  from rb_enq_step [OF k Cons.prems(1) this, of v]
  obtain q1 where q1: "try_enqueue (2 ^ k) q v = (q1, True)" "rb_inv (2 ^ k) q1"
    "rb_contents (2 ^ k) q1 = rb_contents (2 ^ k) q @ [v]"
    "rb_tail q1 = rb_tail q" "rb_head q1 = rb_head q + 1"
    by blast
  have "length (rb_contents (2 ^ k) q1) + length vs \<le> 2 ^ k"
    using Cons.prems(2) q1(3) by simp
  from Cons.IH [OF q1(2) this]
  obtain q' where q': "rb_run (2 ^ k) T q1 (map Enq vs) = (q', map (\<lambda>v. EnqR True) vs)"
    "rb_inv (2 ^ k) q'" "rb_contents (2 ^ k) q' = rb_contents (2 ^ k) q1 @ vs"
    "rb_tail q' = rb_tail q1" "rb_head q' = rb_head q1 + of_nat (length vs)"
    by blast
  show ?case
    using q1 q' by simp
qed

lemma tail_le_head_iff:
  "(t :: size_t) \<le> h \<longleftrightarrow> unat t + unat (h - t) = unat h"
proof
  assume "t \<le> h"
  then show "unat t + unat (h - t) = unat h"
    by (simp add: unat_sub word_le_nat_alt)
next
  assume "unat t + unat (h - t) = unat h"
  then have "unat t \<le> unat h" by simp
  then show "t \<le> h" by (simp add: word_le_nat_alt)
qed

lemma rb_drain:
  assumes k: "k < 64"
  shows "rb_inv (2 ^ k) q \<Longrightarrow> rb_tail q \<le> rb_head q \<Longrightarrow> rb_contents (2 ^ k) q = xs @ ys \<Longrightarrow>
    \<exists>q'. rb_run (2 ^ k) T q (replicate (length xs) Deq) = (q', map (\<lambda>x. DeqR (Some x)) xs) \<and>
      rb_inv (2 ^ k) q' \<and> rb_contents (2 ^ k) q' = ys \<and>
      rb_head q' = rb_head q \<and> rb_tail q' = rb_tail q + of_nat (length xs) \<and>
      rb_tail q' \<le> rb_head q'"
proof (induction xs arbitrary: q)
  case Nil
  then show ?case by simp
next
  case (Cons x xs)
  have c: "rb_contents (2 ^ k) q = x # (xs @ ys)"
    using Cons.prems(3) by simp
  from rb_deq_step [OF k Cons.prems(1) Cons.prems(2) c, of T "T_default T"]
  obtain q1 where q1: "try_dequeue (2 ^ k) T q (T_default T) = (q1, True, x)"
    "rb_inv (2 ^ k) q1" "rb_contents (2 ^ k) q1 = xs @ ys"
    "rb_head q1 = rb_head q" "rb_tail q1 = rb_tail q + 1"
    by blast
  have "rb_head q \<noteq> rb_tail q"
    using c rb_contents_Nil_iff [of "2 ^ k" q] by auto
  then have "rb_tail q < rb_head q"
    using Cons.prems(2) by simp
  then have "rb_tail q + 1 \<le> rb_head q"
    by (rule inc_le)
  then have nw: "rb_tail q1 \<le> rb_head q1"
    using q1 by simp
  from Cons.IH [OF q1(2) nw q1(3)]
  obtain q' where q': "rb_run (2 ^ k) T q1 (replicate (length xs) Deq) =
      (q', map (\<lambda>x. DeqR (Some x)) xs)"
    "rb_inv (2 ^ k) q'" "rb_contents (2 ^ k) q' = ys"
    "rb_head q' = rb_head q1" "rb_tail q' = rb_tail q1 + of_nat (length xs)"
    "rb_tail q' \<le> rb_head q'"
    by blast
  have "try_dequeue_opt (2 ^ k) T q = (q1, Some x)"
    using q1(1) try_dequeue_opt_eq [of "2 ^ k" T q "T_default T"] by simp
  then show ?case
    using q1 q' by simp
qed

lemma fst_rb_step:
  "fst (rb_step Capacity T q (Enq v)) = fst (try_enqueue Capacity q v)"
  "fst (rb_step Capacity T q (DeqOut r)) = fst (try_dequeue Capacity T q r)"
  "fst (rb_step Capacity T q Deq) = fst (try_dequeue Capacity T q (T_default T))"
  using try_dequeue_opt_eq [of Capacity T q "T_default T"]
  by (auto split: prod.splits)

lemma fst_rb_run_Cons:
  "fst (rb_run Capacity T q (x # xs)) = fst (rb_run Capacity T (fst (rb_step Capacity T q x)) xs)"
  by (auto split: prod.splits)

lemma rb_step_inv:
  assumes k: "k < 64" and inv: "rb_inv (2 ^ k) q"
  shows "rb_inv (2 ^ k) (fst (rb_step (2 ^ k) T q x)) \<and> rb_moves q (fst (rb_step (2 ^ k) T q x))"
proof -
  have le: "length (rb_contents (2 ^ k) q) \<le> 2 ^ k"
    using inv k by (simp add: rb_inv_def unat_cap length_rb_contents)
  have deq: "rb_inv (2 ^ k) (fst (try_dequeue (2 ^ k) T q r)) \<and>
      rb_moves q (fst (try_dequeue (2 ^ k) T q r))" for r
  proof (cases "rb_tail q < rb_head q")
    case True
    then have "rb_head q \<noteq> rb_tail q" by auto
    then show ?thesis
      using try_dequeue_nonempty [OF True, of "2 ^ k" T r] rb_inv_dequeue [OF inv] True
      by (simp add: rb_moves_def)
  next
    case False
    then have "rb_head q \<le> rb_tail q" by simp
    then show ?thesis
      using try_dequeue_empty [of q "2 ^ k" T r] inv by (simp add: rb_moves_def)
  qed
  show ?thesis
  proof (cases x)
    case (Enq v)
    show ?thesis
    proof (cases "length (rb_contents (2 ^ k) q) < 2 ^ k")
      case True
      then show ?thesis
        using rb_enq_step [OF k inv True, of v] Enq by (auto simp: rb_moves_def)
    next
      case False
      then have "length (rb_contents (2 ^ k) q) = 2 ^ k"
        using le by simp
      then show ?thesis
        using rb_enq_full_step [OF k, of q v] inv Enq by (simp add: rb_moves_def)
    qed
  next
    case (DeqOut r)
    then show ?thesis
      using deq [of r] by (simp only: fst_rb_step)
  next
    case Deq
    then show ?thesis
      using deq [of "T_default T"] by (simp only: fst_rb_step)
  qed
qed

lemma rb_run_inv:
  assumes k: "k < 64"
  shows "rb_inv (2 ^ k) q \<Longrightarrow> rb_inv (2 ^ k) (fst (rb_run (2 ^ k) T q ops))"
proof (induction ops arbitrary: q)
  case Nil
  then show ?case by simp
next
  case (Cons x ops)
  have "rb_inv (2 ^ k) (fst (rb_step (2 ^ k) T q x))"
    using rb_step_inv [OF k Cons.prems] by simp
  from Cons.IH [OF this] show ?case
    by (simp only: fst_rb_run_Cons)
qed

lemma rb_reachable_inv:
  assumes k: "k < 64" and r: "rb_reachable (2 ^ k) T q"
  shows "rb_inv (2 ^ k) q"
proof -
  from r obtain ops rs where
    run: "rb_run (2 ^ k) T (RingBuffer_new (2 ^ k) T) ops = (q, rs)"
    unfolding rb_reachable_def by blast
  from rb_run_inv [OF k rb_inv_new [OF k], of T T ops]
  show ?thesis
    using run by simp
qed

lemma rb_moves_nowrap:
  assumes m: "rb_moves q q'" and le: "rb_tail q \<le> rb_head q"
    and b: "unat (rb_head q) + 1 < 2 ^ 64"
  shows "rb_tail q' \<le> rb_head q' \<and> unat (rb_head q') \<le> unat (rb_head q) + 1"
proof -
  consider "q' = q" | "rb_head q' = rb_head q + 1" "rb_tail q' = rb_tail q"
    | "rb_head q' = rb_head q" "rb_tail q' = rb_tail q + 1" "rb_tail q < rb_head q"
    using m unfolding rb_moves_def by blast
  then show ?thesis
  proof cases
    case 1
    then show ?thesis using le by simp
  next
    case 2
    have "unat (rb_head q) + unat (1 :: size_t) < 2 ^ 64"
      using b by simp
    then have u: "unat (rb_head q + 1) = unat (rb_head q) + 1"
      using unat_add_lem [of "rb_head q" 1] by simp
    have "unat (rb_tail q) \<le> unat (rb_head q)"
      using le by (simp add: word_le_nat_alt)
    then have "rb_tail q \<le> rb_head q + 1"
      using u by (simp add: word_le_nat_alt)
    then show ?thesis
      using 2 u by simp
  next
    case 3
    have "rb_tail q + 1 \<le> rb_head q"
      using 3(3) by (rule inc_le)
    then show ?thesis
      using 3 by simp
  qed
qed

lemma rb_run_nowrap:
  assumes k: "k < 64"
  shows "rb_inv (2 ^ k) q \<Longrightarrow> rb_tail q \<le> rb_head q \<Longrightarrow>
    unat (rb_head q) + length ops < 2 ^ 64 \<Longrightarrow>
    rb_tail (fst (rb_run (2 ^ k) T q ops)) \<le> rb_head (fst (rb_run (2 ^ k) T q ops)) \<and>
    unat (rb_head (fst (rb_run (2 ^ k) T q ops))) \<le> unat (rb_head q) + length ops"
proof (induction ops arbitrary: q)
  case Nil
  then show ?case by simp
next
  case (Cons x ops)
  let ?q1 = "fst (rb_step (2 ^ k) T q x)"
  have q1: "rb_inv (2 ^ k) ?q1" "rb_moves q ?q1"
    using rb_step_inv [OF k Cons.prems(1), of T x] by simp_all
  have "unat (rb_head q) + 1 < 2 ^ 64"
    using Cons.prems(3) by simp
  from rb_moves_nowrap [OF q1(2) Cons.prems(2) this]
  have m: "rb_tail ?q1 \<le> rb_head ?q1" "unat (rb_head ?q1) \<le> unat (rb_head q) + 1"
    by simp_all
  have "unat (rb_head ?q1) + length ops < 2 ^ 64"
    using m(2) Cons.prems(3) by simp
  from Cons.IH [OF q1(1) m(1) this] show ?case
    using m(2) unfolding fst_rb_run_Cons by simp
qed

section \<open>The destructor loop\<close>

lemma length_destructor_loop:
  "length (destructor_loop Capacity head tail) = unat (tail - head)"
proof (induction Capacity head tail rule: destructor_loop.induct)
  case (1 Capacity head tail)
  show ?case
  proof (cases "head = tail")
    case True
    then show ?thesis by (subst destructor_loop.simps) simp
  next
    case False
    then have nz: "tail - head \<noteq> 0" by simp
    then have pos: "0 < unat (tail - head)"
      by (simp add: unat_gt_0)
    have e: "tail - (head + 1) = (tail - head) - 1" by simp
    have "unat (tail - (head + 1)) = unat (tail - head) - 1"
      unfolding e by (rule unat_minus_one [OF nz])
    then have "length (destructor_loop Capacity (head + 1) tail) = unat (tail - head) - 1"
      using 1 False by simp
    then show ?thesis
      using False pos by (subst destructor_loop.simps) simp
  qed
qed

lemma unat_minus_1_size_t: "unat (- 1 :: size_t) = 2 ^ 64 - 1"
  by (simp add: unsigned_minus_1_eq_mask mask_eq_exp_minus_1)

section \<open>What a call that returns has done\<close>

lemma enqueue_loop_frame:
  assumes "enqueue_loop Capacity q v head = Some y"
  shows "y = (q, False) \<or>
     y = (q\<lparr>q_head := q_head q + 1,
            q_slots := (q_slots q)[idx Capacity (q_head q) :=
              \<lparr>sequence = q_head q + 1, element = v\<rparr>]\<rparr>, True)"
  by (induction rule: enqueue_loop.raw_induct [OF _ assms])
    (auto simp: Let_def idx_def split: if_splits)

lemma enqueue_frame:
  assumes "enqueue Capacity q v = Some (q', ok)"
  shows "if ok
     then q' = q\<lparr>q_head := q_head q + 1,
            q_slots := (q_slots q)[idx Capacity (q_head q) :=
              \<lparr>sequence = q_head q + 1, element = v\<rparr>]\<rparr>
     else q' = q"
  using enqueue_loop_frame [of Capacity q v "q_head q" "(q', ok)"] assms
  by (auto simp: enqueue_def)

lemma dequeue_loop_frame:
  assumes "dequeue_loop Capacity T q r tail = Some y"
  shows "y = (q, False, r) \<or>
     y = (q\<lparr>q_tail := q_tail q + 1,
            q_slots := (q_slots q)[idx Capacity (q_tail q) :=
              \<lparr>sequence = q_tail q + Capacity,
               element = T_moved T (element (q_slots q ! idx Capacity (q_tail q)))\<rparr>]\<rparr>,
          True, element (q_slots q ! idx Capacity (q_tail q)))"
  by (induction rule: dequeue_loop.raw_induct [OF _ assms])
    (auto simp: Let_def idx_def split: if_splits)

lemma dequeue_frame:
  assumes "dequeue Capacity T q r = Some (q', ok, x)"
  shows "if ok
     then q' = q\<lparr>q_tail := q_tail q + 1,
            q_slots := (q_slots q)[idx Capacity (q_tail q) :=
              \<lparr>sequence = q_tail q + Capacity,
               element = T_moved T (element (q_slots q ! idx Capacity (q_tail q)))\<rparr>]\<rparr> \<and>
          x = element (q_slots q ! idx Capacity (q_tail q))
     else q' = q \<and> x = r"
  using dequeue_loop_frame [of Capacity T q r "q_tail q" "(q', ok, x)"] assms
  by (auto simp: dequeue_def)

text \<open>The value that \<open>result\<close> holds before the call does not matter to a successful call.\<close>

lemma dequeue_loop_result_indep:
  assumes "dequeue_loop Capacity T q r tail = Some y"
  shows "dequeue_loop Capacity T q r' tail =
     Some (fst y, fst (snd y), if fst (snd y) then snd (snd y) else r')"
proof (induction rule: dequeue_loop.raw_induct [OF _ assms])
  case (1 loop Capacity T q r tail y)
  let ?i = "unat (tail AND (Capacity - 1))"
  let ?diff = "sequence (q_slots q ! ?i) - tail - 1"
  let ?goal = "dequeue_loop Capacity T q r' tail =
     Some (fst y, fst (snd y), if fst (snd y) then snd (snd y) else r')"
  have again: ?goal
    if retry: "dequeue_loop Capacity T q r' tail = dequeue_loop Capacity T q r' (q_tail q)"
      and rec: "loop Capacity T q r (q_tail q) = Some y"
  proof -
    have "dequeue_loop Capacity T q r' (q_tail q) =
        Some (fst y, fst (snd y), if fst (snd y) then snd (snd y) else r')"
      by (rule "1.IH" [OF rec])
    then show ?thesis
      by (simp only: retry)
  qed
  consider (empty) "?diff \<noteq> 0" "sint ?diff < 0"
    | (behind) "?diff \<noteq> 0" "\<not> sint ?diff < 0"
    | (lost) "?diff = 0" "q_tail q \<noteq> tail"
    | (claim) "?diff = 0" "q_tail q = tail"
    by blast
  then show ?case
  proof cases
    case empty
    then have "y = (q, False, r)"
      using "1.hyps" by (simp add: Let_def)
    then show ?thesis
      using empty by (subst dequeue_loop.simps) (simp add: Let_def)
  next
    case behind
    then have rec: "loop Capacity T q r (q_tail q) = Some y"
      using "1.hyps" by (simp add: Let_def)
    have "dequeue_loop Capacity T q r' tail = dequeue_loop Capacity T q r' (q_tail q)"
      using behind by (subst dequeue_loop.simps) (simp add: Let_def)
    then show ?thesis
      using rec by (rule again)
  next
    case lost
    then have rec: "loop Capacity T q r (q_tail q) = Some y"
      using "1.hyps" by (simp add: Let_def)
    have "dequeue_loop Capacity T q r' tail = dequeue_loop Capacity T q r' (q_tail q)"
      using lost by (subst dequeue_loop.simps) (simp add: Let_def)
    then show ?thesis
      using rec by (rule again)
  next
    case claim
    then have "y = (q\<lparr>q_tail := tail + 1,
          q_slots := (q_slots q)[?i := \<lparr>sequence = tail + Capacity,
             element = T_moved T (element (q_slots q ! ?i))\<rparr>]\<rparr>,
        True, element (q_slots q ! ?i))"
      using "1.hyps" by (simp add: Let_def)
    then show ?thesis
      using claim by (subst dequeue_loop.simps) (simp add: Let_def)
  qed
qed

lemma dequeue_result_indep:
  "dequeue Capacity T q r' =
     map_option (\<lambda>(q', ok, x). (q', ok, if ok then x else r')) (dequeue Capacity T q r)"
proof (cases "dequeue Capacity T q r")
  case None
  have "dequeue Capacity T q r' = None"
  proof (rule ccontr)
    assume "dequeue Capacity T q r' \<noteq> None"
    then obtain y where "dequeue_loop Capacity T q r' (q_tail q) = Some y"
      by (auto simp: dequeue_def)
    from dequeue_loop_result_indep [OF this, of r]
    show False
      using None by (simp add: dequeue_def)
  qed
  then show ?thesis
    using None by simp
next
  case (Some y)
  then have "dequeue_loop Capacity T q r (q_tail q) = Some y"
    by (simp add: dequeue_def)
  from dequeue_loop_result_indep [OF this, of r']
  show ?thesis
    using Some by (simp add: dequeue_def split: prod.splits)
qed

section \<open>Reachable states, cycles and the wrap of the producer index\<close>

lemma mpmc_reachable_new: "mpmc_reachable Capacity T (MPMCQueue_new Capacity T)"
  unfolding mpmc_reachable_def by (rule exI [of _ "[]"]) simp

lemma rb_reachable_new: "rb_reachable Capacity T (RingBuffer_new Capacity T)"
  unfolding rb_reachable_def by (rule exI [of _ "[]"]) simp

lemma mpmc_reachable_calls_return:
  assumes k: "1 \<le> k" "k < 64" and r: "mpmc_reachable (2 ^ k) T q"
  shows "enqueue (2 ^ k) q v \<noteq> None \<and> dequeue (2 ^ k) T q r \<noteq> None \<and>
    dequeue_opt (2 ^ k) T q \<noteq> None"
proof -
  have inv: "mpmc_inv (2 ^ k) q"
    by (rule mpmc_reachable_inv [OF k r])
  show ?thesis
    using mpmc_step_total [OF k inv, of T "Enq v"] mpmc_step_total [OF k inv, of T "DeqOut r"]
      mpmc_step_total [OF k inv, of T Deq]
    by (auto split: option.splits)
qed

lemma mpmc_contents_new: "mpmc_contents Capacity (MPMCQueue_new Capacity T) = []"
  by (simp add: mpmc_contents_Nil_iff MPMCQueue_new_def)

lemma rb_contents_new: "rb_contents Capacity (RingBuffer_new Capacity T) = []"
  by (simp add: rb_contents_Nil_iff RingBuffer_new_def)

lemma mpmc_fill_drain:
  assumes k: "k < 64" and inv: "mpmc_inv (2 ^ k) q" and e: "q_head q = q_tail q"
    and len: "length vs \<le> 2 ^ k"
  shows "\<exists>q'. mpmc_run (2 ^ k) T q (map Enq vs @ replicate (length vs) Deq) =
        Some (q', map (\<lambda>v. EnqR True) vs @ map (\<lambda>v. DeqR (Some v)) vs) \<and>
      mpmc_inv (2 ^ k) q' \<and> q_head q' = q_tail q' \<and>
      q_head q' = q_head q + of_nat (length vs)"
proof -
  have c: "mpmc_contents (2 ^ k) q = []"
    using e by (simp add: mpmc_contents_Nil_iff)
  then have "length (mpmc_contents (2 ^ k) q) + length vs \<le> 2 ^ k"
    using len by simp
  from mpmc_fill [OF k inv this, of T]
  obtain q1 where q1: "mpmc_run (2 ^ k) T q (map Enq vs) = Some (q1, map (\<lambda>v. EnqR True) vs)"
    "mpmc_inv (2 ^ k) q1" "mpmc_contents (2 ^ k) q1 = mpmc_contents (2 ^ k) q @ vs"
    "q_tail q1 = q_tail q" "q_head q1 = q_head q + of_nat (length vs)"
    by blast
  have "mpmc_contents (2 ^ k) q1 = vs @ []"
    using q1(3) c by simp
  from mpmc_drain [OF k q1(2) this, of T]
  obtain q' where q': "mpmc_run (2 ^ k) T q1 (replicate (length vs) Deq) =
        Some (q', map (\<lambda>x. DeqR (Some x)) vs)"
    "mpmc_inv (2 ^ k) q'" "mpmc_contents (2 ^ k) q' = []"
    "q_head q' = q_head q1" "q_tail q' = q_tail q1 + of_nat (length vs)"
    by blast
  show ?thesis
    using q1 q' e by (simp add: mpmc_run_append)
qed

lemma no_wrap_add:
  assumes "(t :: size_t) \<le> h" "unat h + n < 2 ^ 64"
  shows "t \<le> h + of_nat n \<and> unat (h + of_nat n) = unat h + n"
proof -
  have u: "unat (h + of_nat n) = unat h + n"
    using assms(2) by (simp add: unat_plus_of_nat)
  have "unat t \<le> unat h"
    using assms(1) by (simp add: word_le_nat_alt)
  then show ?thesis
    using u by (simp add: word_le_nat_alt)
qed

lemma rb_fill_drain:
  assumes k: "k < 64" and inv: "rb_inv (2 ^ k) q" and e: "rb_head q = rb_tail q"
    and len: "length vs \<le> 2 ^ k" and nw: "unat (rb_head q) + length vs < 2 ^ 64"
  shows "\<exists>q'. rb_run (2 ^ k) T q (map Enq vs @ replicate (length vs) Deq) =
        (q', map (\<lambda>v. EnqR True) vs @ map (\<lambda>v. DeqR (Some v)) vs) \<and>
      rb_inv (2 ^ k) q' \<and> rb_head q' = rb_tail q' \<and>
      rb_head q' = rb_head q + of_nat (length vs) \<and>
      unat (rb_head q') = unat (rb_head q) + length vs"
proof -
  have c: "rb_contents (2 ^ k) q = []"
    using e by (simp add: rb_contents_Nil_iff)
  then have "length (rb_contents (2 ^ k) q) + length vs \<le> 2 ^ k"
    using len by simp
  from rb_fill [OF k inv this, of T]
  obtain q1 where q1: "rb_run (2 ^ k) T q (map Enq vs) = (q1, map (\<lambda>v. EnqR True) vs)"
    "rb_inv (2 ^ k) q1" "rb_contents (2 ^ k) q1 = rb_contents (2 ^ k) q @ vs"
    "rb_tail q1 = rb_tail q" "rb_head q1 = rb_head q + of_nat (length vs)"
    by blast
  have "rb_tail q \<le> rb_head q"
    using e by simp
  from no_wrap_add [OF this nw]
  have nw1: "rb_tail q1 \<le> rb_head q1" and u: "unat (rb_head q1) = unat (rb_head q) + length vs"
    using q1 by simp_all
  have "rb_contents (2 ^ k) q1 = vs @ []"
    using q1(3) c by simp
  from rb_drain [OF k q1(2) nw1 this, of T]
  obtain q' where q': "rb_run (2 ^ k) T q1 (replicate (length vs) Deq) =
        (q', map (\<lambda>x. DeqR (Some x)) vs)"
    "rb_inv (2 ^ k) q'" "rb_contents (2 ^ k) q' = []"
    "rb_head q' = rb_head q1" "rb_tail q' = rb_tail q1 + of_nat (length vs)"
    by blast
  show ?thesis
    using q1 q' e u by (simp add: rb_run_append)
qed

lemma mpmc_cycles:
  assumes k: "k < 64"
  shows "mpmc_inv (2 ^ k) q \<Longrightarrow> q_head q = q_tail q \<Longrightarrow>
    \<forall>vs \<in> set cycles. length vs \<le> 2 ^ k \<Longrightarrow>
    \<exists>q'. mpmc_run (2 ^ k) T q (concat (map cycle_ops cycles)) =
        Some (q', concat (map cycle_results cycles)) \<and>
      mpmc_inv (2 ^ k) q' \<and> q_head q' = q_tail q' \<and>
      q_head q' = q_head q + of_nat (length (concat cycles))"
proof (induction cycles arbitrary: q)
  case Nil
  then show ?case by simp
next
  case (Cons vs cycles)
  have len: "length vs \<le> 2 ^ k"
    using Cons.prems(3) by simp
  from mpmc_fill_drain [OF k Cons.prems(1) Cons.prems(2) len, of T]
  obtain q1 where q1: "mpmc_run (2 ^ k) T q (cycle_ops vs) = Some (q1, cycle_results vs)"
    "mpmc_inv (2 ^ k) q1" "q_head q1 = q_tail q1" "q_head q1 = q_head q + of_nat (length vs)"
    unfolding cycle_ops_def cycle_results_def by blast
  have "\<forall>vs \<in> set cycles. length vs \<le> 2 ^ k"
    using Cons.prems(3) by simp
  from Cons.IH [OF q1(2) q1(3) this]
  obtain q' where q': "mpmc_run (2 ^ k) T q1 (concat (map cycle_ops cycles)) =
        Some (q', concat (map cycle_results cycles))"
    "mpmc_inv (2 ^ k) q'" "q_head q' = q_tail q'"
    "q_head q' = q_head q1 + of_nat (length (concat cycles))"
    by blast
  have "q_head q' = q_head q + of_nat (length (concat (vs # cycles)))"
    using q1(4) q'(4) by (simp add: add.assoc)
  then show ?case
    using q1(1) q'(1) q'(2) q'(3) by (simp add: mpmc_run_append)
qed

lemma rb_cycles:
  assumes k: "k < 64"
  shows "rb_inv (2 ^ k) q \<Longrightarrow> rb_head q = rb_tail q \<Longrightarrow>
    \<forall>vs \<in> set cycles. length vs \<le> 2 ^ k \<Longrightarrow>
    unat (rb_head q) + length (concat cycles) < 2 ^ 64 \<Longrightarrow>
    \<exists>q'. rb_run (2 ^ k) T q (concat (map cycle_ops cycles)) =
        (q', concat (map cycle_results cycles)) \<and>
      rb_inv (2 ^ k) q' \<and> rb_head q' = rb_tail q' \<and>
      unat (rb_head q') = unat (rb_head q) + length (concat cycles)"
proof (induction cycles arbitrary: q)
  case Nil
  then show ?case by simp
next
  case (Cons vs cycles)
  have len: "length vs \<le> 2 ^ k"
    using Cons.prems(3) by simp
  have nw: "unat (rb_head q) + length vs < 2 ^ 64"
    using Cons.prems(4) by simp
  from rb_fill_drain [OF k Cons.prems(1) Cons.prems(2) len nw, of T]
  obtain q1 where q1: "rb_run (2 ^ k) T q (cycle_ops vs) = (q1, cycle_results vs)"
    "rb_inv (2 ^ k) q1" "rb_head q1 = rb_tail q1"
    "unat (rb_head q1) = unat (rb_head q) + length vs"
    unfolding cycle_ops_def cycle_results_def by blast
  have all: "\<forall>vs \<in> set cycles. length vs \<le> 2 ^ k"
    using Cons.prems(3) by simp
  have "unat (rb_head q1) + length (concat cycles) < 2 ^ 64"
    using Cons.prems(4) q1(4) by simp
  from Cons.IH [OF q1(2) q1(3) all this]
  obtain q' where q': "rb_run (2 ^ k) T q1 (concat (map cycle_ops cycles)) =
        (q', concat (map cycle_results cycles))"
    "rb_inv (2 ^ k) q'" "rb_head q' = rb_tail q'"
    "unat (rb_head q') = unat (rb_head q1) + length (concat cycles)"
    by blast
  show ?case
    using q1 q' by (simp add: rb_run_append)
qed

text \<open>
  The ring buffer after \<open>n\<close> cycles of one value each, \<open>n\<close> below \<open>2 ^ 64\<close>, and the cycle
  after \<open>2 ^ 64 - 1\<close> of them: the enqueue wraps the producer index round to \<open>0\<close>, and the
  dequeue then finds \<^verbatim>\<open>head <= tail\<close> and returns nothing.
\<close>

lemma rb_wrapped_cycle:
  assumes n: "Suc n = 2 ^ 64"
  shows "snd (rb_run (2 ^ 0) T (RingBuffer_new (2 ^ 0) T)
            (concat (map cycle_ops (replicate (Suc n) [v])))) =
         concat (map cycle_results (replicate n [v])) @ [EnqR True, DeqR None]"
proof -
  have k: "(0 :: nat) < 64" by simp
  have rh: "rb_head (RingBuffer_new (2 ^ 0) T) = rb_tail (RingBuffer_new (2 ^ 0) T)"
    by (simp add: RingBuffer_new_def)
  have all: "\<forall>vs \<in> set (replicate n [v]). length vs \<le> 2 ^ 0"
    by simp
  have len: "length (concat (replicate n [v])) = n"
    by (induction n) simp_all
  have "unat (rb_head (RingBuffer_new (2 ^ 0) T)) + length (concat (replicate n [v])) < 2 ^ 64"
    unfolding len using n by (simp add: RingBuffer_new_def)
  from rb_cycles [OF k rb_inv_new [OF k, of T] rh all this, of T]
  obtain q where q: "rb_run (2 ^ 0) T (RingBuffer_new (2 ^ 0) T)
        (concat (map cycle_ops (replicate n [v]))) =
        (q, concat (map cycle_results (replicate n [v])))"
    "rb_inv (2 ^ 0) q" "rb_head q = rb_tail q"
    "unat (rb_head q) = unat (rb_head (RingBuffer_new (2 ^ 0) T)) + length (concat (replicate n [v]))"
    by blast
  have "unat (rb_head q) = n"
    using q(4) unfolding len by (simp add: RingBuffer_new_def)
  then have "unat (rb_head q) = unat (- 1 :: size_t)"
    using n by (simp add: unat_minus_1_size_t)
  then have h: "rb_head q = - 1"
    by (rule unsigned_word_eqI)
  then have t: "rb_tail q = - 1"
    using q(3) by simp
  have last: "rb_run (2 ^ 0) T q (cycle_ops [v]) =
      (q\<lparr>rb_buffer := (rb_buffer q)[0 := v], rb_head := 0\<rparr>, [EnqR True, DeqR None])"
    by (simp add: cycle_ops_def try_enqueue_def try_dequeue_opt_def Let_def h t)
  have "replicate (Suc n) [v] = replicate n [v] @ [[v]]"
    by (simp add: replicate_append_same)
  then have "concat (map cycle_ops (replicate (Suc n) [v])) =
      concat (map cycle_ops (replicate n [v])) @ cycle_ops [v]"
    by simp
  then show ?thesis
    using q(1) last by (simp add: rb_run_append)
qed

lemma cycle_results_snoc:
  "concat (map cycle_results (replicate (Suc n) [v])) =
     concat (map cycle_results (replicate n [v])) @ [EnqR True, DeqR (Some v)]"
proof -
  have "replicate (Suc n) [v] = replicate n [v] @ [[v]]"
    by (simp add: replicate_append_same)
  then have "concat (map cycle_results (replicate (Suc n) [v])) =
      concat (map cycle_results (replicate n [v])) @ cycle_results [v]"
    by simp
  then show ?thesis
    by (simp add: cycle_results_def)
qed

lemma rb_wrapped_cycle_differs:
  assumes N: "N = 2 ^ 64"
  shows "snd (rb_run (2 ^ 0) T (RingBuffer_new (2 ^ 0) T)
            (concat (map cycle_ops (replicate N [v])))) \<noteq>
         concat (map cycle_results (replicate N [v]))"
proof -
  have "0 < N"
    using N by simp
  then obtain n where n: "N = Suc n"
    by (cases N) simp_all
  then have sn: "Suc n = 2 ^ 64"
    using N by simp
  have a: "snd (rb_run (2 ^ 0) T (RingBuffer_new (2 ^ 0) T)
            (concat (map cycle_ops (replicate (Suc n) [v])))) =
         concat (map cycle_results (replicate n [v])) @ [EnqR True, DeqR None]"
    by (rule rb_wrapped_cycle [OF sn])
  show ?thesis
    unfolding n a cycle_results_snoc by simp
qed

text \<open>
  The state after \<open>2 ^ 64 - 1\<close> cycles of one value each and one more enqueue: the producer
  index has wrapped round to \<open>0\<close> and the consumer index is \<open>2 ^ 64 - 1\<close>.
\<close>

lemma rb_wrapped_state:
  assumes k: "k < 64" and N: "N = 2 ^ 64 - 1"
  shows "\<exists>q. fst (rb_run (2 ^ k) T (RingBuffer_new (2 ^ k) T)
            (concat (map cycle_ops (replicate N [v])) @ [Enq v])) = q \<and>
         rb_head q = 0 \<and> rb_tail q = - 1"
proof -
  have rh: "rb_head (RingBuffer_new (2 ^ k) T) = rb_tail (RingBuffer_new (2 ^ k) T)"
    by (simp add: RingBuffer_new_def)
  have all: "\<forall>vs \<in> set (replicate N [v]). length vs \<le> 2 ^ k"
    by simp
  have len: "length (concat (replicate N [v])) = N"
    by (induction N) simp_all
  have "unat (rb_head (RingBuffer_new (2 ^ k) T)) + length (concat (replicate N [v])) < 2 ^ 64"
    unfolding len using N by (simp add: RingBuffer_new_def)
  from rb_cycles [OF k rb_inv_new [OF k, of T] rh all this, of T]
  obtain q where q: "rb_run (2 ^ k) T (RingBuffer_new (2 ^ k) T)
        (concat (map cycle_ops (replicate N [v]))) =
        (q, concat (map cycle_results (replicate N [v])))"
    "rb_inv (2 ^ k) q" "rb_head q = rb_tail q"
    "unat (rb_head q) = unat (rb_head (RingBuffer_new (2 ^ k) T)) + length (concat (replicate N [v]))"
    by blast
  have "unat (rb_head q) = N"
    using q(4) unfolding len by (simp add: RingBuffer_new_def)
  then have "unat (rb_head q) = unat (- 1 :: size_t)"
    using N by (simp add: unat_minus_1_size_t)
  then have h: "rb_head q = - 1"
    by (rule unsigned_word_eqI)
  then have t: "rb_tail q = - 1"
    using q(3) by simp
  have "length (rb_contents (2 ^ k) q) < 2 ^ k"
    using q(3) by (simp add: length_rb_contents)
  from rb_enq_step [OF k q(2) this, of v]
  obtain q' where q': "try_enqueue (2 ^ k) q v = (q', True)"
    "rb_tail q' = rb_tail q" "rb_head q' = rb_head q + 1"
    by blast
  have "fst (rb_run (2 ^ k) T (RingBuffer_new (2 ^ k) T)
            (concat (map cycle_ops (replicate N [v])) @ [Enq v])) = q'"
    using q(1) q'(1) by (simp add: rb_run_append)
  then show ?thesis
    using q' h t by simp
qed


text \<open>
  A sequenced-slot queue of capacity 1 after two enqueues, and a dequeue attempted then: the
  loop of \<^verbatim>\<open>dequeue\<close> reads sequence 2 at consumer index 0, finds the difference positive,
  reloads the same consumer index and goes round again.
\<close>

lemma dequeue_loop_capacity_one_spins:
  assumes "sequence (q_slots q ! 0) = 2" "q_tail q = 0"
  shows "dequeue_loop 1 T q r 0 = None"
proof (rule ccontr)
  assume "dequeue_loop 1 T q r 0 \<noteq> None"
  then obtain y where y: "dequeue_loop 1 T q r 0 = Some y"
    by auto
  have "\<not> (Capacity = 1 \<and> sequence (q_slots q' ! 0) = 2 \<and> q_tail q' = 0 \<and> tail = 0)"
    if "dequeue_loop Capacity T' q' r' tail = Some y'" for Capacity T' q' r' tail y'
  proof (induction rule: dequeue_loop.raw_induct [OF _ that])
    case (1 loop Capacity T' q' r' tail y')
    show ?case
    proof
      assume a: "Capacity = 1 \<and> sequence (q_slots q' ! 0) = 2 \<and> q_tail q' = 0 \<and> tail = 0"
      then have "loop Capacity T' q' r' (q_tail q') = Some y'"
        using "1.hyps" by (simp add: Let_def)
      from "1.IH" [OF this] show False
        using a by simp
    qed
  qed
  from this [OF y] show False
    using assms by simp
qed

lemma capacity_bound:
  assumes k: "k < 64" and len: "length vs = 2 ^ k"
  shows "snd (rb_run (2 ^ k) T (RingBuffer_new (2 ^ k) T)
            (map Enq vs @ [Enq x, Deq, Enq y, Enq z])) =
          map (\<lambda>v. EnqR True) vs @ [EnqR False, DeqR (Some (hd vs)), EnqR True, EnqR False]"
    and "1 \<le> k \<Longrightarrow>
         map_option snd (mpmc_run (2 ^ k) T (MPMCQueue_new (2 ^ k) T)
            (map Enq vs @ [Enq x, Deq, Enq y, Enq z])) =
          Some (map (\<lambda>v. EnqR True) vs @
                [EnqR False, DeqR (Some (hd vs)), EnqR True, EnqR False])"
proof -
  have ne: "vs \<noteq> []"
    using len by auto
  then have vs: "vs = hd vs # tl vs"
    by simp
  have tl: "length (tl vs) < 2 ^ k" "Suc (length (tl vs)) = 2 ^ k"
    using len ne by simp_all
  show "snd (rb_run (2 ^ k) T (RingBuffer_new (2 ^ k) T)
            (map Enq vs @ [Enq x, Deq, Enq y, Enq z])) =
          map (\<lambda>v. EnqR True) vs @ [EnqR False, DeqR (Some (hd vs)), EnqR True, EnqR False]"
  proof -
    let ?new = "RingBuffer_new (2 ^ k) T"
    have "length (rb_contents (2 ^ k) ?new) + length vs \<le> 2 ^ k"
      using len by (simp add: rb_contents_new)
    from rb_fill [OF k rb_inv_new [OF k] this, of T]
    obtain q1 where q1: "rb_run (2 ^ k) T ?new (map Enq vs) = (q1, map (\<lambda>v. EnqR True) vs)"
      "rb_inv (2 ^ k) q1" "rb_contents (2 ^ k) q1 = vs" "rb_tail q1 = rb_tail ?new"
      by (auto simp: rb_contents_new)
    have full1: "try_enqueue (2 ^ k) q1 x = (q1, False)"
      using rb_enq_full_step [OF k, of q1 x] q1(3) len by simp
    have "rb_tail q1 \<le> rb_head q1"
      using q1(4) by (simp add: RingBuffer_new_def)
    moreover have "rb_contents (2 ^ k) q1 = hd vs # tl vs"
      using q1(3) vs by simp
    ultimately obtain q2 where q2: "try_dequeue (2 ^ k) T q1 (T_default T) = (q2, True, hd vs)"
      "rb_inv (2 ^ k) q2" "rb_contents (2 ^ k) q2 = tl vs"
      using rb_deq_step [OF k q1(2), of "hd vs" "tl vs" T "T_default T"] by blast
    have d: "try_dequeue_opt (2 ^ k) T q1 = (q2, Some (hd vs))"
      using q2(1) try_dequeue_opt_eq [of "2 ^ k" T q1 "T_default T"] by simp
    have "length (rb_contents (2 ^ k) q2) < 2 ^ k"
      using q2(3) tl by simp
    from rb_enq_step [OF k q2(2) this, of y]
    obtain q3 where q3: "try_enqueue (2 ^ k) q2 y = (q3, True)"
      "rb_contents (2 ^ k) q3 = tl vs @ [y]"
      using q2(3) by auto
    have full3: "try_enqueue (2 ^ k) q3 z = (q3, False)"
      using rb_enq_full_step [OF k, of q3 z] q3(2) tl by simp
    show ?thesis
      using q1(1) full1 d q3(1) full3 by (simp add: rb_run_append)
  qed
  show "map_option snd (mpmc_run (2 ^ k) T (MPMCQueue_new (2 ^ k) T)
            (map Enq vs @ [Enq x, Deq, Enq y, Enq z])) =
          Some (map (\<lambda>v. EnqR True) vs @
                [EnqR False, DeqR (Some (hd vs)), EnqR True, EnqR False])" if k1: "1 \<le> k"
  proof -
    let ?new = "MPMCQueue_new (2 ^ k) T"
    have "length (mpmc_contents (2 ^ k) ?new) + length vs \<le> 2 ^ k"
      using len by (simp add: mpmc_contents_new)
    from mpmc_fill [OF k mpmc_inv_new [OF k] this, of T]
    obtain q1 where q1: "mpmc_run (2 ^ k) T ?new (map Enq vs) = Some (q1, map (\<lambda>v. EnqR True) vs)"
      "mpmc_inv (2 ^ k) q1" "mpmc_contents (2 ^ k) q1 = vs"
      by (auto simp: mpmc_contents_new)
    have full1: "enqueue (2 ^ k) q1 x = Some (q1, False)"
      using mpmc_enq_full_step [OF k1 k q1(2), of x] q1(3) len by simp
    have "mpmc_contents (2 ^ k) q1 = hd vs # tl vs"
      using q1(3) vs by simp
    from mpmc_deq_step [OF k q1(2) this, of T "T_default_init T 0"]
    obtain q2 where q2: "dequeue (2 ^ k) T q1 (T_default_init T 0) = Some (q2, True, hd vs)"
      "mpmc_inv (2 ^ k) q2" "mpmc_contents (2 ^ k) q2 = tl vs"
      by blast
    have "length (mpmc_contents (2 ^ k) q2) < 2 ^ k"
      using q2(3) tl by simp
    from mpmc_enq_step [OF k q2(2) this, of y]
    obtain q3 where q3: "enqueue (2 ^ k) q2 y = Some (q3, True)" "mpmc_inv (2 ^ k) q3"
      "mpmc_contents (2 ^ k) q3 = tl vs @ [y]"
      using q2(3) by auto
    have full3: "enqueue (2 ^ k) q3 z = Some (q3, False)"
      using mpmc_enq_full_step [OF k1 k q3(2), of z] q3(3) tl by simp
    show ?thesis
      using q1(1) full1 q2(1) q3(1) full3 by (simp add: mpmc_run_append dequeue_opt_def)
  qed
qed

lemma count_eq_cap:
  assumes "k < 64"
  shows "unat (x :: size_t) = 2 ^ k \<longleftrightarrow> x = 2 ^ k"
proof
  assume "unat x = 2 ^ k"
  then have "unat x = unat ((2 :: size_t) ^ k)"
    using assms by (simp add: unat_cap)
  then show "x = 2 ^ k"
    by (rule unsigned_word_eqI)
next
  assume "x = 2 ^ k"
  then show "unat x = 2 ^ k"
    using assms by (simp add: unat_cap)
qed




lemma rb_new_run_nowrap:
  assumes k: "k < 64" and len: "length ops < 2 ^ 64"
  shows "rb_tail (fst (rb_run (2 ^ k) T (RingBuffer_new (2 ^ k) T) ops)) \<le>
         rb_head (fst (rb_run (2 ^ k) T (RingBuffer_new (2 ^ k) T) ops))"
proof -
  have "rb_tail (RingBuffer_new (2 ^ k) T) \<le> rb_head (RingBuffer_new (2 ^ k) T)"
    by (simp add: RingBuffer_new_def)
  moreover have "unat (rb_head (RingBuffer_new (2 ^ k) T)) + length ops < 2 ^ 64"
    using len by (simp add: RingBuffer_new_def)
  ultimately show ?thesis
    using rb_run_nowrap [OF k rb_inv_new [OF k, of T], where T = T and ops = ops] by blast
qed


lemma overfull_queue_reached:
  "mpmc_run 1 MoveOnlyType (MPMCQueue_new 1 MoveOnlyType) [Enq 1, Enq 2] =
     Some (overfull_queue, [EnqR True, EnqR True])"
  by code_simp

lemma length_wrap_ops: "length wrap_ops = 2 ^ 65 - 1"
proof -
  have "length (concat (map cycle_ops (replicate n [v]))) = 2 * n" for n and v :: int
    by (induction n) (simp_all add: cycle_ops_def)
  then show ?thesis
    unfolding wrap_ops_def by simp
qed

lemma rb_wrap_ops:
  assumes "k < 64"
  shows "rb_head (fst (rb_run (2 ^ k) MoveOnlyType (RingBuffer_new (2 ^ k) MoveOnlyType) wrap_ops)) = 0"
    and "rb_tail (fst (rb_run (2 ^ k) MoveOnlyType (RingBuffer_new (2 ^ k) MoveOnlyType) wrap_ops)) = - 1"
  using rb_wrapped_state [OF assms refl, of MoveOnlyType 7] unfolding wrap_ops_def by auto


lemma rb_enqueue_false_iff:
  assumes k: "k < 64" and inv: "rb_inv (2 ^ k) b"
  shows "\<not> snd (try_enqueue (2 ^ k) b v) \<longleftrightarrow> rb_head b - rb_tail b = 2 ^ k"
proof (cases "unat (rb_head b - rb_tail b) < 2 ^ k")
  case True
  then have "rb_head b - rb_tail b \<noteq> 2 ^ k"
    using count_eq_cap [OF k, of "rb_head b - rb_tail b"] by simp
  then show ?thesis
    using try_enqueue_not_full [OF k True, of v] by simp
next
  case False
  then have full: "unat (rb_head b - rb_tail b) = 2 ^ k"
    using inv k by (simp add: rb_inv_def unat_cap)
  then have "rb_head b - rb_tail b = 2 ^ k"
    using count_eq_cap [OF k, of "rb_head b - rb_tail b"] by simp
  then show ?thesis
    using try_enqueue_full [OF k full, of v] by simp
qed

lemma rb_dequeue_false_iff:
  assumes nw: "rb_tail b \<le> rb_head b"
  shows "\<not> fst (snd (try_dequeue Capacity T b r)) \<longleftrightarrow> rb_head b = rb_tail b"
    and "snd (try_dequeue_opt Capacity T b) = None \<longleftrightarrow> rb_head b = rb_tail b"
proof -
  show d: "\<not> fst (snd (try_dequeue Capacity T b r)) \<longleftrightarrow> rb_head b = rb_tail b" for r
  proof (cases "rb_head b = rb_tail b")
    case True
    then show ?thesis
      using try_dequeue_empty [of b Capacity T r] by simp
  next
    case False
    then have "rb_tail b < rb_head b"
      using nw by simp
    then show ?thesis
      using try_dequeue_nonempty [of b Capacity T r] False by simp
  qed
  show "snd (try_dequeue_opt Capacity T b) = None \<longleftrightarrow> rb_head b = rb_tail b"
    using d [of "T_default T"] try_dequeue_opt_eq [of Capacity T b "T_default T"]
    by (simp split: prod.splits if_splits)
qed

lemma mpmc_enqueue_false_iff:
  assumes k: "1 \<le> k" "k < 64" and inv: "mpmc_inv (2 ^ k) q"
  shows "\<exists>q' ok. enqueue (2 ^ k) q v = Some (q', ok) \<and>
     (\<not> ok \<longleftrightarrow> q_head q - q_tail q = 2 ^ k)"
proof (cases "unat (q_head q - q_tail q) < 2 ^ k")
  case True
  then have "q_head q - q_tail q \<noteq> 2 ^ k"
    using count_eq_cap [OF k(2), of "q_head q - q_tail q"] by simp
  then show ?thesis
    using enqueue_not_full [OF k(2) inv True, of v] by auto
next
  case False
  then have full: "unat (q_head q - q_tail q) = 2 ^ k"
    using inv k by (simp add: mpmc_inv_def unat_cap)
  then have "q_head q - q_tail q = 2 ^ k"
    using count_eq_cap [OF k(2), of "q_head q - q_tail q"] by simp
  then show ?thesis
    using enqueue_full [OF k inv full, of v] by auto
qed

lemma mpmc_dequeue_false_iff:
  assumes k: "k < 64" and inv: "mpmc_inv (2 ^ k) q"
  shows "\<exists>q' ok x. dequeue (2 ^ k) T q r = Some (q', ok, x) \<and> (\<not> ok \<longleftrightarrow> q_head q = q_tail q)"
    and "\<exists>q' x. dequeue_opt (2 ^ k) T q = Some (q', x) \<and> (x = None \<longleftrightarrow> q_head q = q_tail q)"
proof -
  show d: "\<exists>q' ok x. dequeue (2 ^ k) T q r = Some (q', ok, x) \<and>
      (\<not> ok \<longleftrightarrow> q_head q = q_tail q)" for r
  proof (cases "q_head q = q_tail q")
    case True
    then show ?thesis
      using dequeue_empty [OF k inv True, of T r] by auto
  next
    case False
    then show ?thesis
      using dequeue_nonempty [OF k inv False, of T r] by auto
  qed
  from d [of "T_default_init T 0"]
  show "\<exists>q' x. dequeue_opt (2 ^ k) T q = Some (q', x) \<and> (x = None \<longleftrightarrow> q_head q = q_tail q)"
    by (auto simp: dequeue_opt_def)
qed





lemma first_claim_offset:
  assumes k: "k < 64"
  shows "d < 2 ^ k \<Longrightarrow> d \<le> n \<Longrightarrow>
    first_claim (2 ^ k) a (idx (2 ^ k) (a + of_nat d)) n = a + of_nat d"
proof (induction n arbitrary: a d)
  case 0
  then show ?case by simp
next
  case (Suc n)
  show ?case
  proof (cases d)
    case 0
    then show ?thesis by simp
  next
    case (Suc d')
    have z: "(0 :: nat) < 2 ^ k" by simp
    have "idx (2 ^ k) (a + of_nat 0) \<noteq> idx (2 ^ k) (a + of_nat d)"
      using idx_inj [OF k z Suc.prems(1), of a] Suc by auto
    then have ne: "idx (2 ^ k) a \<noteq> idx (2 ^ k) (a + of_nat d)"
      by simp
    have e: "a + of_nat d = (a + 1) + of_nat d'"
      using Suc by simp
    have "first_claim (2 ^ k) (a + 1) (idx (2 ^ k) ((a + 1) + of_nat d')) n = (a + 1) + of_nat d'"
      using Suc.IH [of d' "a + 1"] Suc.prems Suc by simp
    then show ?thesis
      using ne unfolding e by simp
  qed
qed

lemma next_producer_index_free:
  assumes k: "k < 64" and j: "j < 2 ^ k" and free: "\<not> j < unat (q_head q - q_tail q)"
  shows "next_producer_index (2 ^ k) q (idx (2 ^ k) (q_tail q + of_nat j)) = q_tail q + of_nat j"
proof -
  let ?n = "unat (q_head q - q_tail q)"
  have d: "j - ?n < 2 ^ k" "j - ?n \<le> 2 ^ k"
    using j by simp_all
  have "of_nat j = (of_nat ?n :: size_t) + of_nat (j - ?n)"
    using free by (simp flip: of_nat_add)
  then have "q_tail q + of_nat j = (q_tail q + of_nat ?n) + of_nat (j - ?n)"
    by (simp only: add.assoc)
  then have e: "q_tail q + of_nat j = q_head q + of_nat (j - ?n)"
    by (simp only: tail_plus_count)
  show ?thesis
    unfolding next_producer_index_def e using first_claim_offset [OF k d, of "q_head q"] k
    by (simp add: unat_cap)
qed

lemma sequence_new:
  assumes "k < 64" "j < 2 ^ k"
  shows "sequence (q_slots (MPMCQueue_new (2 ^ k) T) ! j) = of_nat j"
  using assms by (simp add: MPMCQueue_new_def unat_cap)

text \<open>
  After a successful call the slot that the call claimed carries the new sequence. Nothing is
  needed of the state but that the array has its \<open>Capacity\<close> slots.
\<close>

lemma sequence_after_enqueue:
  assumes k: "k < 64" and len: "length (q_slots q) = 2 ^ k"
    and e: "enqueue (2 ^ k) q v = Some (q', True)"
  shows "sequence (q_slots q' ! idx (2 ^ k) (q_head q)) = q_head q + 1"
proof -
  have "idx (2 ^ k) (q_head q) < length (q_slots q)"
    using len idx_lt [of k "q_head q"] by simp
  then show ?thesis
    using enqueue_frame [OF e] by simp
qed

lemma sequence_after_dequeue:
  assumes k: "k < 64" and len: "length (q_slots q) = 2 ^ k"
    and d: "dequeue (2 ^ k) T q r = Some (q', True, x)"
  shows "sequence (q_slots q' ! idx (2 ^ k) (q_tail q)) = q_tail q + 2 ^ k"
proof -
  have "idx (2 ^ k) (q_tail q) < length (q_slots q)"
    using len idx_lt [of k "q_tail q"] by simp
  then show ?thesis
    using dequeue_frame [OF d] by simp
qed

text \<open>Every array position is the position of one of any \<open>Capacity\<close> successive indices.\<close>

lemma idx_onto:
  assumes k: "k < 64" and i: "i < 2 ^ k"
  shows "\<exists>j < 2 ^ k. idx (2 ^ k) (t + of_nat j) = i"
proof -
  let ?m = "(2 :: nat) ^ k"
  let ?a = "unat t mod ?m"
  let ?j = "(i + (?m - ?a)) mod ?m"
  have a: "?a < ?m"
    by simp
  have "(unat t + ?j) mod ?m = (?a + (i + (?m - ?a))) mod ?m"
    by (simp add: mod_simps)
  also have "?a + (i + (?m - ?a)) = i + ?m"
    using a by linarith
  also have "(i + ?m) mod ?m = i"
    using i by simp
  finally have "idx (2 ^ k) (t + of_nat ?j) = i"
    by (simp only: idx_offset [OF k])
  moreover have "?j < ?m"
    by simp
  ultimately show ?thesis
    by blast
qed

text \<open>A dequeue succeeds only on a slot whose sequence is the consumer index plus one.\<close>

lemma diff_eq_oneD: "(a :: size_t) - b = 1 \<Longrightarrow> a = b + 1"
  using diff_add_cancel [of a b] by (simp add: add.commute)

lemma dequeue_loop_claimed:
  assumes "dequeue_loop Capacity T q r tail = Some y"
  shows "fst (snd y) \<longrightarrow> sequence (q_slots q ! idx Capacity (q_tail q)) = q_tail q + 1"
  by (induction rule: dequeue_loop.raw_induct [OF _ assms])
    (auto simp: Let_def idx_def split: if_splits dest: diff_eq_oneD)

lemma dequeue_claimed:
  assumes "dequeue Capacity T q r = Some (q', True, x)"
  shows "sequence (q_slots q ! idx Capacity (q_tail q)) = q_tail q + 1"
  using dequeue_loop_claimed [of Capacity T q r "q_tail q" "(q', True, x)"] assms
  by (simp add: dequeue_def)

text \<open>
  Capacity 1: the one slot carries the producer index in every state that calls which return
  can reach, the states with more than one element queued among them.
\<close>

lemma idx_capacity_one: "idx 1 x = 0"
  by (simp add: idx_def)

lemma capacity_one_step:
  assumes len: "length (q_slots q) = 1" and s: "sequence (q_slots q ! 0) = q_head q"
    and st: "mpmc_step 1 T q x = Some (q', res)"
  shows "length (q_slots q') = 1 \<and> sequence (q_slots q' ! 0) = q_head q'"
proof -
  have enq: "length (q_slots q1) = 1 \<and> sequence (q_slots q1 ! 0) = q_head q1"
    if "enqueue 1 q v = Some (q1, ok)" for q1 v ok
    using enqueue_frame [OF that] len s by (cases ok) (simp_all add: idx_capacity_one)
  have deq: "length (q_slots q1) = 1 \<and> sequence (q_slots q1 ! 0) = q_head q1"
    if d: "dequeue 1 T q r = Some (q1, ok, y)" for q1 r ok y
  proof (cases ok)
    case True
    then have "sequence (q_slots q ! 0) = q_tail q + 1"
      using dequeue_claimed [of 1 T q r q1 y] d by (simp add: idx_capacity_one)
    then show ?thesis
      using dequeue_frame [OF d] True len s by (simp add: idx_capacity_one)
  next
    case False
    then show ?thesis
      using dequeue_frame [OF d] len s by simp
  qed
  show ?thesis
  proof (cases x)
    case (Enq v)
    then show ?thesis
      using st enq by (auto split: option.splits)
  next
    case (DeqOut r)
    then show ?thesis
      using st deq by (auto split: option.splits)
  next
    case Deq
    then show ?thesis
      using st deq by (auto simp: dequeue_opt_def split: option.splits)
  qed
qed

lemma capacity_one_run:
  "length (q_slots q) = 1 \<Longrightarrow> sequence (q_slots q ! 0) = q_head q \<Longrightarrow>
   mpmc_run 1 T q ops = Some (q', rs) \<Longrightarrow>
   length (q_slots q') = 1 \<and> sequence (q_slots q' ! 0) = q_head q'"
proof (induction ops arbitrary: q rs)
  case Nil
  then show ?case by simp
next
  case (Cons x ops)
  from Cons.prems(3) obtain q1 r1 rs1 where
    s: "mpmc_step 1 T q x = Some (q1, r1)" and
    r: "mpmc_run 1 T q1 ops = Some (q', rs1)"
    by (auto split: option.splits)
  from capacity_one_step [OF Cons.prems(1) Cons.prems(2) s]
  have "length (q_slots q1) = 1" "sequence (q_slots q1 ! 0) = q_head q1"
    by simp_all
  then show ?case
    using Cons.IH [OF _ _ r] by simp
qed

lemma capacity_one_reachable:
  assumes "mpmc_reachable 1 T q"
  shows "length (q_slots q) = 1" and "sequence (q_slots q ! 0) = q_head q"
proof -
  from assms obtain ops rs where
    run: "mpmc_run 1 T (MPMCQueue_new 1 T) ops = Some (q, rs)"
    unfolding mpmc_reachable_def by blast
  have "length (q_slots (MPMCQueue_new 1 T)) = 1"
    "sequence (q_slots (MPMCQueue_new 1 T) ! 0) = q_head (MPMCQueue_new 1 T)"
    by (simp_all add: MPMCQueue_new_def)
  from capacity_one_run [OF this run]
  show "length (q_slots q) = 1" and "sequence (q_slots q ! 0) = q_head q"
    by simp_all
qed

lemma next_producer_index_capacity_one: "next_producer_index 1 q 0 = q_head q"
  by (simp add: next_producer_index_def idx_capacity_one)

lemma mpmc_reachable_length:
  assumes k: "k < 64" and r: "mpmc_reachable (2 ^ k) T q"
  shows "length (q_slots q) = 2 ^ k"
proof (cases "k = 0")
  case True
  then show ?thesis
    using capacity_one_reachable(1) [of T q] r by simp
next
  case False
  then have "mpmc_inv (2 ^ k) q"
    using mpmc_reachable_inv [OF _ k r] by simp
  then show ?thesis
    using k by (simp add: mpmc_inv_def unat_cap)
qed

text \<open>The slots of a newly constructed queue, and of a reachable one.\<close>

lemma next_producer_index_new:
  assumes k: "k < 64" and i: "i < 2 ^ k"
  shows "next_producer_index (2 ^ k) (MPMCQueue_new (2 ^ k) T) i = of_nat i"
proof -
  have t: "q_tail (MPMCQueue_new (2 ^ k) T) = 0" "q_head (MPMCQueue_new (2 ^ k) T) = 0"
    by (simp_all add: MPMCQueue_new_def)
  have "idx (2 ^ k) (of_nat i) = i"
    using idx_offset [OF k, of 0 i] i by simp
  then show ?thesis
    using next_producer_index_free [OF k i, of "MPMCQueue_new (2 ^ k) T"] by (simp add: t)
qed

lemma slot_of_reachable:
  assumes k: "k < 64" and r: "mpmc_reachable (2 ^ k) T q" and i: "i < 2 ^ k"
  shows "sequence (q_slots q ! i) = next_producer_index (2 ^ k) q i \<or>
     (\<exists>j < unat (q_head q - q_tail q). idx (2 ^ k) (q_tail q + of_nat j) = i \<and>
        sequence (q_slots q ! i) = q_tail q + of_nat j + 1)"
proof (cases "k = 0")
  case True
  then have "i = 0"
    using i by simp
  then show ?thesis
    using capacity_one_reachable(2) [of T q] r True next_producer_index_capacity_one [of q]
    by simp
next
  case False
  then have k1: "1 \<le> k"
    by simp
  have inv: "mpmc_inv (2 ^ k) q"
    by (rule mpmc_reachable_inv [OF k1 k r])
  from idx_onto [OF k i, of "q_tail q"]
  obtain j where j: "j < 2 ^ k" "idx (2 ^ k) (q_tail q + of_nat j) = i"
    by blast
  show ?thesis
  proof (cases "j < unat (q_head q - q_tail q)")
    case True
    then show ?thesis
      using mpmc_inv_slot [OF inv k j(1)] j(2) by auto
  next
    case False
    then show ?thesis
      using mpmc_inv_slot [OF inv k j(1)] next_producer_index_free [OF k j(1) False] j(2)
      by simp
  qed
qed

lemma slot_by_position:
  assumes k: "1 \<le> k" "k < 64" and r: "mpmc_reachable (2 ^ k) T q" and j: "j < 2 ^ k"
  shows "sequence (q_slots q ! idx (2 ^ k) (q_tail q + of_nat j)) =
      (if j < unat (q_head q - q_tail q) then q_tail q + of_nat j + 1
       else next_producer_index (2 ^ k) q (idx (2 ^ k) (q_tail q + of_nat j)))"
  using mpmc_inv_slot [OF mpmc_reachable_inv [OF k r] k(2) j]
    next_producer_index_free [OF k(2) j, of q]
  by simp

text \<open>
  The ring buffer of capacity 1 over \<open>2 ^ 64\<close> cycles of one value: what the calls return.
\<close>

lemma rb_wrapped_cycle_results:
  assumes N: "N = 2 ^ 64" and M: "M = 2 ^ 64 - 1"
  shows "snd (rb_run (2 ^ 0) T (RingBuffer_new (2 ^ 0) T)
            (concat (map cycle_ops (replicate N [v])))) =
         concat (map cycle_results (replicate M [v])) @ [EnqR True, DeqR None]"
proof -
  have s: "Suc M = 2 ^ 64"
    using M by simp
  then have "N = Suc M"
    using N by simp
  then show ?thesis
    using rb_wrapped_cycle [OF s, of T v] by simp
qed

section \<open>The claims\<close>

subsection \<open>C1\<close>

text \<open>
  Claim C1 at capacity 1, which both \<^verbatim>\<open>static_assert\<close>s admit. On a newly constructed
  \<^verbatim>\<open>MPMCQueue<T, 1>\<close> the second enqueue in a row returns true as well (and overwrites the
  first element), where the claim and the documentation of \<^verbatim>\<open>enqueue\<close> say it returns false;
  a dequeue after that never returns.
\<close>

theorem mpmc_capacity_one_never_full:
  "valid_capacity 1 \<and>
   mpmc_run 1 MoveOnlyType (MPMCQueue_new 1 MoveOnlyType) [Enq 1, Enq 2] =
     Some (\<lparr>q_tail = 0, q_head = 2, q_slots = [\<lparr>sequence = 2, element = 2\<rparr>]\<rparr>,
           [EnqR True, EnqR True]) \<and>
   mpmc_run 1 MoveOnlyType (MPMCQueue_new 1 MoveOnlyType) [Enq 1, Enq 2, Deq] = None"
proof -
  have v: "valid_capacity 1"
    by (simp add: valid_capacity_def)
  have two: "mpmc_run 1 MoveOnlyType (MPMCQueue_new 1 MoveOnlyType) [Enq 1, Enq 2] =
     Some (\<lparr>q_tail = 0, q_head = 2, q_slots = [\<lparr>sequence = 2, element = 2\<rparr>]\<rparr>,
           [EnqR True, EnqR True])"
    by code_simp
  have "dequeue_loop 1 MoveOnlyType
      \<lparr>q_tail = 0, q_head = 2, q_slots = [\<lparr>sequence = 2, element = 2\<rparr>]\<rparr> 0 0 = None"
    by (rule dequeue_loop_capacity_one_spins) simp_all
  then have "mpmc_run 1 MoveOnlyType
      \<lparr>q_tail = 0, q_head = 2, q_slots = [\<lparr>sequence = 2, element = 2\<rparr>]\<rparr> [Deq] = None"
    by (simp add: dequeue_opt_def dequeue_def MoveOnlyType_def)
  then have "mpmc_run 1 MoveOnlyType (MPMCQueue_new 1 MoveOnlyType) ([Enq 1, Enq 2] @ [Deq]) = None"
    unfolding mpmc_run_append two by simp
  then show ?thesis
    using v two by simp
qed

subsection \<open>C2\<close>



subsection \<open>C3\<close>

text \<open>
  Claim C3 at two inputs where a call misreports. A sequenced-slot queue of capacity 1, which
  both \<^verbatim>\<open>static_assert\<close>s admit, is full after one enqueue: the producer index minus the
  consumer index is the capacity. The next \<^verbatim>\<open>enqueue\<close> returns true, where the claim and the
  documentation of \<^verbatim>\<open>enqueue\<close> say false. A ring buffer of capacity 4 after the calls
  \<open>wrap_ops\<close> holds one element: the two indices differ, \<^verbatim>\<open>size()\<close> is 1 and \<^verbatim>\<open>empty()\<close>
  is false. Both forms of \<^verbatim>\<open>try_dequeue\<close> return false or \<open>None\<close> there, where the claim and
  their documentation say that they do so when the buffer is empty.
\<close>

theorem full_and_empty_misreported:
  "valid_capacity 1 \<and>
   mpmc_run 1 MoveOnlyType (MPMCQueue_new 1 MoveOnlyType) [Enq 1] =
     Some (\<lparr>q_tail = 0, q_head = 1, q_slots = [\<lparr>sequence = 1, element = 1\<rparr>]\<rparr>, [EnqR True]) \<and>
   q_head \<lparr>q_tail = 0, q_head = 1, q_slots = [\<lparr>sequence = 1, element = 1 :: int\<rparr>]\<rparr> -
     q_tail \<lparr>q_tail = 0, q_head = 1, q_slots = [\<lparr>sequence = 1, element = 1 :: int\<rparr>]\<rparr> = 1 \<and>
   enqueue 1 \<lparr>q_tail = 0, q_head = 1, q_slots = [\<lparr>sequence = 1, element = 1 :: int\<rparr>]\<rparr> 2 =
     Some (overfull_queue, True) \<and>
   rb_head (fst (rb_run (2 ^ 2) MoveOnlyType (RingBuffer_new (2 ^ 2) MoveOnlyType) wrap_ops)) \<noteq>
     rb_tail (fst (rb_run (2 ^ 2) MoveOnlyType (RingBuffer_new (2 ^ 2) MoveOnlyType) wrap_ops)) \<and>
   rb_size (fst (rb_run (2 ^ 2) MoveOnlyType (RingBuffer_new (2 ^ 2) MoveOnlyType) wrap_ops)) = 1 \<and>
   \<not> rb_empty (fst (rb_run (2 ^ 2) MoveOnlyType (RingBuffer_new (2 ^ 2) MoveOnlyType) wrap_ops)) \<and>
   \<not> fst (snd (try_dequeue (2 ^ 2) MoveOnlyType
     (fst (rb_run (2 ^ 2) MoveOnlyType (RingBuffer_new (2 ^ 2) MoveOnlyType) wrap_ops)) 0)) \<and>
   snd (try_dequeue_opt (2 ^ 2) MoveOnlyType
     (fst (rb_run (2 ^ 2) MoveOnlyType (RingBuffer_new (2 ^ 2) MoveOnlyType) wrap_ops))) = None"
proof -
  have k: "(2 :: nat) < 64" by simp
  let ?b = "fst (rb_run (2 ^ 2) MoveOnlyType (RingBuffer_new (2 ^ 2) MoveOnlyType) wrap_ops)"
  have v: "valid_capacity 1"
    by (simp add: valid_capacity_def)
  have one: "mpmc_run 1 MoveOnlyType (MPMCQueue_new 1 MoveOnlyType) [Enq 1] =
     Some (\<lparr>q_tail = 0, q_head = 1, q_slots = [\<lparr>sequence = 1, element = 1\<rparr>]\<rparr>, [EnqR True])"
    by code_simp
  have full: "enqueue 1 \<lparr>q_tail = 0, q_head = 1, q_slots = [\<lparr>sequence = 1, element = 1 :: int\<rparr>]\<rparr> 2 =
     Some (overfull_queue, True)"
    by code_simp
  have le: "rb_head ?b \<le> rb_tail ?b"
    unfolding rb_wrap_ops [OF k] by simp
  have ne: "rb_head ?b \<noteq> rb_tail ?b"
    unfolding rb_wrap_ops [OF k] by simp
  have rs: "rb_size ?b = 1"
    unfolding rb_size_def Let_def rb_wrap_ops [OF k] by simp
  have re: "\<not> rb_empty ?b"
    unfolding rb_empty_def rs by simp
  have d: "try_dequeue (2 ^ 2) MoveOnlyType ?b 0 = (?b, False, 0)"
    by (rule try_dequeue_empty [OF le])
  have o: "snd (try_dequeue_opt (2 ^ 2) MoveOnlyType ?b) = None"
    using try_dequeue_opt_eq [of "2 ^ 2" MoveOnlyType ?b 0] unfolding d by simp
  show ?thesis
    using v one full ne rs re o unfolding d by simp
qed

text \<open>
  Where the calls report as documented. In every reachable state of a ring buffer of any
  power-of-two capacity, \<^verbatim>\<open>try_enqueue\<close> returns false exactly when the producer index minus
  the consumer index is the capacity; in every state reached by fewer than \<open>2 ^ 64\<close> calls on a
  newly constructed ring buffer, both forms of \<^verbatim>\<open>try_dequeue\<close> return false or \<open>None\<close>
  exactly when the two indices are equal. In every reachable state of a sequenced-slot queue of
  capacity at least 2, \<^verbatim>\<open>enqueue\<close> returns, and returns false exactly when the producer index
  minus the consumer index is the capacity, and both forms of \<^verbatim>\<open>dequeue\<close> return, and return
  false or \<open>None\<close> exactly when the two indices are equal.
\<close>

theorem full_and_empty_reports:
  assumes "k < 64"
  shows "(rb_reachable (2 ^ k) T b \<longrightarrow>
            (\<not> snd (try_enqueue (2 ^ k) b v) \<longleftrightarrow> rb_head b - rb_tail b = 2 ^ k)) \<and>
         (length ops < 2 ^ 64 \<and> b' = fst (rb_run (2 ^ k) T (RingBuffer_new (2 ^ k) T) ops) \<longrightarrow>
            (\<not> fst (snd (try_dequeue (2 ^ k) T b' r)) \<longleftrightarrow> rb_head b' = rb_tail b') \<and>
            (snd (try_dequeue_opt (2 ^ k) T b') = None \<longleftrightarrow> rb_head b' = rb_tail b')) \<and>
         (1 \<le> k \<and> mpmc_reachable (2 ^ k) T q \<longrightarrow>
            (\<exists>q' ok. enqueue (2 ^ k) q v = Some (q', ok) \<and>
               (\<not> ok \<longleftrightarrow> q_head q - q_tail q = 2 ^ k)) \<and>
            (\<exists>q' ok x. dequeue (2 ^ k) T q r = Some (q', ok, x) \<and>
               (\<not> ok \<longleftrightarrow> q_head q = q_tail q)) \<and>
            (\<exists>q' x. dequeue_opt (2 ^ k) T q = Some (q', x) \<and>
               (x = None \<longleftrightarrow> q_head q = q_tail q)))"
proof (intro conjI)
  show "rb_reachable (2 ^ k) T b \<longrightarrow>
      (\<not> snd (try_enqueue (2 ^ k) b v) \<longleftrightarrow> rb_head b - rb_tail b = 2 ^ k)"
  proof
    assume r: "rb_reachable (2 ^ k) T b"
    show "\<not> snd (try_enqueue (2 ^ k) b v) \<longleftrightarrow> rb_head b - rb_tail b = 2 ^ k"
      by (rule rb_enqueue_false_iff [OF assms rb_reachable_inv [OF assms r]])
  qed
next
  show "length ops < 2 ^ 64 \<and> b' = fst (rb_run (2 ^ k) T (RingBuffer_new (2 ^ k) T) ops) \<longrightarrow>
      (\<not> fst (snd (try_dequeue (2 ^ k) T b' r)) \<longleftrightarrow> rb_head b' = rb_tail b') \<and>
      (snd (try_dequeue_opt (2 ^ k) T b') = None \<longleftrightarrow> rb_head b' = rb_tail b')"
  proof
    assume a: "length ops < 2 ^ 64 \<and> b' = fst (rb_run (2 ^ k) T (RingBuffer_new (2 ^ k) T) ops)"
    then have "rb_tail b' \<le> rb_head b'"
      using rb_new_run_nowrap [OF assms, of ops T] by simp
    then show "(\<not> fst (snd (try_dequeue (2 ^ k) T b' r)) \<longleftrightarrow> rb_head b' = rb_tail b') \<and>
      (snd (try_dequeue_opt (2 ^ k) T b') = None \<longleftrightarrow> rb_head b' = rb_tail b')"
      using rb_dequeue_false_iff(1) [of b' "2 ^ k" T r] rb_dequeue_false_iff(2) [of b' "2 ^ k" T]
      by simp
  qed
next
  show "1 \<le> k \<and> mpmc_reachable (2 ^ k) T q \<longrightarrow>
      (\<exists>q' ok. enqueue (2 ^ k) q v = Some (q', ok) \<and>
         (\<not> ok \<longleftrightarrow> q_head q - q_tail q = 2 ^ k)) \<and>
      (\<exists>q' ok x. dequeue (2 ^ k) T q r = Some (q', ok, x) \<and>
         (\<not> ok \<longleftrightarrow> q_head q = q_tail q)) \<and>
      (\<exists>q' x. dequeue_opt (2 ^ k) T q = Some (q', x) \<and>
         (x = None \<longleftrightarrow> q_head q = q_tail q))"
  proof
    assume a: "1 \<le> k \<and> mpmc_reachable (2 ^ k) T q"
    then have k: "1 \<le> k" and r: "mpmc_reachable (2 ^ k) T q"
      by simp_all
    have inv: "mpmc_inv (2 ^ k) q"
      by (rule mpmc_reachable_inv [OF k assms r])
    show "(\<exists>q' ok. enqueue (2 ^ k) q v = Some (q', ok) \<and>
         (\<not> ok \<longleftrightarrow> q_head q - q_tail q = 2 ^ k)) \<and>
      (\<exists>q' ok x. dequeue (2 ^ k) T q r = Some (q', ok, x) \<and>
         (\<not> ok \<longleftrightarrow> q_head q = q_tail q)) \<and>
      (\<exists>q' x. dequeue_opt (2 ^ k) T q = Some (q', x) \<and>
         (x = None \<longleftrightarrow> q_head q = q_tail q))"
      by (intro conjI mpmc_enqueue_false_iff [OF k assms inv]
          mpmc_dequeue_false_iff(1) [OF assms inv] mpmc_dequeue_false_iff(2) [OF assms inv])
  qed
qed

theorem full_and_empty_reports_witness:
  "(1 :: nat) < 64 \<and> rb_reachable (2 ^ 1) MoveOnlyType (RingBuffer_new (2 ^ 1) MoveOnlyType) \<and>
   length ([] :: int op list) < 2 ^ 64 \<and> (1 :: nat) \<le> 1 \<and>
   mpmc_reachable (2 ^ 1) MoveOnlyType (MPMCQueue_new (2 ^ 1) MoveOnlyType) \<and>
   snd (try_enqueue (2 ^ 1) (RingBuffer_new (2 ^ 1) MoveOnlyType) 5) \<and>
   \<not> fst (snd (try_dequeue (2 ^ 1) MoveOnlyType (RingBuffer_new (2 ^ 1) MoveOnlyType) 9)) \<and>
   snd (try_dequeue_opt (2 ^ 1) MoveOnlyType (RingBuffer_new (2 ^ 1) MoveOnlyType)) = None \<and>
   (\<exists>q'. enqueue (2 ^ 1) (MPMCQueue_new (2 ^ 1) MoveOnlyType) 5 = Some (q', True)) \<and>
   (\<exists>q' x. dequeue (2 ^ 1) MoveOnlyType (MPMCQueue_new (2 ^ 1) MoveOnlyType) 9 = Some (q', False, x)) \<and>
   (\<exists>q'. dequeue_opt (2 ^ 1) MoveOnlyType (MPMCQueue_new (2 ^ 1) MoveOnlyType) = Some (q', None))"
proof -
  have z: "rb_head (RingBuffer_new (2 ^ 1) MoveOnlyType) - rb_tail (RingBuffer_new (2 ^ 1) MoveOnlyType) \<noteq> 2 ^ 1"
    "rb_head (RingBuffer_new (2 ^ 1) MoveOnlyType) = rb_tail (RingBuffer_new (2 ^ 1) MoveOnlyType)"
    by (simp_all add: RingBuffer_new_def)
  have y: "q_head (MPMCQueue_new (2 ^ 1) MoveOnlyType) - q_tail (MPMCQueue_new (2 ^ 1) MoveOnlyType) \<noteq> 2 ^ 1"
    "q_head (MPMCQueue_new (2 ^ 1) MoveOnlyType) = q_tail (MPMCQueue_new (2 ^ 1) MoveOnlyType)"
    by (simp_all add: MPMCQueue_new_def)
  have e: "fst (rb_run (2 ^ 1) MoveOnlyType (RingBuffer_new (2 ^ 1) MoveOnlyType) []) =
      RingBuffer_new (2 ^ 1) MoveOnlyType"
    by simp
  show ?thesis
    using full_and_empty_reports [of 1 MoveOnlyType "RingBuffer_new (2 ^ 1) MoveOnlyType" 5 "[]"
        "RingBuffer_new (2 ^ 1) MoveOnlyType" 9 "MPMCQueue_new (2 ^ 1) MoveOnlyType"]
      rb_reachable_new [of "2 ^ 1" MoveOnlyType] mpmc_reachable_new [of "2 ^ 1" MoveOnlyType]
      z y e
    by auto
qed

subsection \<open>C4\<close>

text \<open>
  Claim C4, for every power-of-two capacity. At construction slot \<open>i\<close> has sequence \<open>i\<close>, which
  is the absolute index of the next producer expected to write it. After an enqueue that
  claimed the absolute index \<open>h\<close> the sequence of its slot is \<open>h + 1\<close>, and after a dequeue that
  claimed \<open>t\<close> the sequence of its slot is \<open>t\<close> plus the capacity; the two equations hold from
  every state in which the array has its slots, and every reachable state is one. In every
  reachable state every slot either carries the absolute index of the next producer expected to
  write it, or holds an element that was enqueued at an absolute index \<open>a\<close> and is still
  queued, and carries \<open>a + 1\<close> as the enqueue left it. With capacity at least 2 the position
  tells the two apart: of the absolute indices from the consumer index on, those below the
  producer index have slots that carry \<open>a + 1\<close>, and the others have free slots that carry the
  index of their next producer, which is \<open>a\<close>. With capacity 1 the slot carries the index of
  its next producer in every reachable state.
\<close>

theorem slot_sequences:
  assumes "k < 64"
  shows "(i < 2 ^ k \<longrightarrow>
            sequence (q_slots (MPMCQueue_new (2 ^ k) T) ! i) = of_nat i \<and>
            next_producer_index (2 ^ k) (MPMCQueue_new (2 ^ k) T) i = of_nat i) \<and>
         (length (q_slots q) = 2 ^ k \<and> enqueue (2 ^ k) q v = Some (q1, True) \<longrightarrow>
            sequence (q_slots q1 ! idx (2 ^ k) (q_head q)) = q_head q + 1) \<and>
         (length (q_slots q) = 2 ^ k \<and> dequeue (2 ^ k) T q r = Some (q2, True, x) \<longrightarrow>
            sequence (q_slots q2 ! idx (2 ^ k) (q_tail q)) = q_tail q + 2 ^ k) \<and>
         (mpmc_reachable (2 ^ k) T p \<longrightarrow> length (q_slots p) = 2 ^ k) \<and>
         (mpmc_reachable (2 ^ k) T p \<and> i < 2 ^ k \<longrightarrow>
            sequence (q_slots p ! i) = next_producer_index (2 ^ k) p i \<or>
            (\<exists>j < unat (q_head p - q_tail p). idx (2 ^ k) (q_tail p + of_nat j) = i \<and>
               sequence (q_slots p ! i) = q_tail p + of_nat j + 1)) \<and>
         (1 \<le> k \<and> mpmc_reachable (2 ^ k) T p \<and> j < 2 ^ k \<longrightarrow>
            sequence (q_slots p ! idx (2 ^ k) (q_tail p + of_nat j)) =
              (if j < unat (q_head p - q_tail p) then q_tail p + of_nat j + 1
               else next_producer_index (2 ^ k) p (idx (2 ^ k) (q_tail p + of_nat j)))) \<and>
         (j < 2 ^ k \<and> \<not> j < unat (q_head p - q_tail p) \<longrightarrow>
            next_producer_index (2 ^ k) p (idx (2 ^ k) (q_tail p + of_nat j)) =
              q_tail p + of_nat j) \<and>
         (k = 0 \<and> mpmc_reachable (2 ^ k) T p \<longrightarrow>
            sequence (q_slots p ! 0) = next_producer_index (2 ^ k) p 0)"
proof (intro conjI impI)
  assume "i < 2 ^ k"
  then show "sequence (q_slots (MPMCQueue_new (2 ^ k) T) ! i) = of_nat i"
    by (rule sequence_new [OF assms])
next
  assume "i < 2 ^ k"
  then show "next_producer_index (2 ^ k) (MPMCQueue_new (2 ^ k) T) i = of_nat i"
    by (rule next_producer_index_new [OF assms])
next
  assume "length (q_slots q) = 2 ^ k \<and> enqueue (2 ^ k) q v = Some (q1, True)"
  then show "sequence (q_slots q1 ! idx (2 ^ k) (q_head q)) = q_head q + 1"
    using sequence_after_enqueue [OF assms, of q v q1] by simp
next
  assume "length (q_slots q) = 2 ^ k \<and> dequeue (2 ^ k) T q r = Some (q2, True, x)"
  then show "sequence (q_slots q2 ! idx (2 ^ k) (q_tail q)) = q_tail q + 2 ^ k"
    using sequence_after_dequeue [OF assms, of q T r q2 x] by simp
next
  assume "mpmc_reachable (2 ^ k) T p"
  then show "length (q_slots p) = 2 ^ k"
    by (rule mpmc_reachable_length [OF assms])
next
  assume "mpmc_reachable (2 ^ k) T p \<and> i < 2 ^ k"
  then show "sequence (q_slots p ! i) = next_producer_index (2 ^ k) p i \<or>
      (\<exists>j < unat (q_head p - q_tail p). idx (2 ^ k) (q_tail p + of_nat j) = i \<and>
         sequence (q_slots p ! i) = q_tail p + of_nat j + 1)"
    using slot_of_reachable [OF assms, of T p i] by simp
next
  assume "1 \<le> k \<and> mpmc_reachable (2 ^ k) T p \<and> j < 2 ^ k"
  then show "sequence (q_slots p ! idx (2 ^ k) (q_tail p + of_nat j)) =
      (if j < unat (q_head p - q_tail p) then q_tail p + of_nat j + 1
       else next_producer_index (2 ^ k) p (idx (2 ^ k) (q_tail p + of_nat j)))"
    using slot_by_position [OF _ assms, of T p j] by simp
next
  assume "j < 2 ^ k \<and> \<not> j < unat (q_head p - q_tail p)"
  then show "next_producer_index (2 ^ k) p (idx (2 ^ k) (q_tail p + of_nat j)) =
      q_tail p + of_nat j"
    using next_producer_index_free [OF assms, of j p] by simp
next
  assume a: "k = 0 \<and> mpmc_reachable (2 ^ k) T p"
  from a have z: "k = 0"
    by (rule conjunct1)
  from a have "mpmc_reachable (2 ^ k) T p"
    by (rule conjunct2)
  then have "mpmc_reachable 1 T p"
    using z by simp
  from capacity_one_reachable(2) [OF this]
  show "sequence (q_slots p ! 0) = next_producer_index (2 ^ k) p 0"
    using z by (simp add: next_producer_index_capacity_one)
qed

theorem slot_sequences_witness:
  "(1 :: nat) < 64 \<and> (1 :: nat) < 2 ^ 1 \<and> (1 :: nat) \<le> 1 \<and> (0 :: nat) < 2 ^ 1 \<and>
   sequence (q_slots (MPMCQueue_new (2 ^ 1) MoveOnlyType) ! 1) = of_nat 1 \<and>
   next_producer_index (2 ^ 1) (MPMCQueue_new (2 ^ 1) MoveOnlyType) 1 = of_nat 1 \<and>
   length (q_slots \<lparr>q_tail = 0, q_head = 1,
      q_slots = [\<lparr>sequence = 1, element = 5 :: int\<rparr>, \<lparr>sequence = 1, element = 0\<rparr>]\<rparr>) = 2 ^ 1 \<and>
   mpmc_reachable (2 ^ 1) MoveOnlyType \<lparr>q_tail = 0, q_head = 1,
      q_slots = [\<lparr>sequence = 1, element = 5\<rparr>, \<lparr>sequence = 1, element = 0\<rparr>]\<rparr> \<and>
   enqueue (2 ^ 1) \<lparr>q_tail = 0, q_head = 1,
      q_slots = [\<lparr>sequence = 1, element = 5 :: int\<rparr>, \<lparr>sequence = 1, element = 0\<rparr>]\<rparr> 6 =
     Some (\<lparr>q_tail = 0, q_head = 2,
       q_slots = [\<lparr>sequence = 1, element = 5\<rparr>, \<lparr>sequence = 2, element = 6\<rparr>]\<rparr>, True) \<and>
   sequence (q_slots \<lparr>q_tail = 0, q_head = 2,
       q_slots = [\<lparr>sequence = 1, element = 5 :: int\<rparr>, \<lparr>sequence = 2, element = 6\<rparr>]\<rparr> !
     idx (2 ^ 1) (q_head \<lparr>q_tail = 0, q_head = 1,
       q_slots = [\<lparr>sequence = 1, element = 5 :: int\<rparr>, \<lparr>sequence = 1, element = 0\<rparr>]\<rparr>)) = 2 \<and>
   dequeue (2 ^ 1) MoveOnlyType \<lparr>q_tail = 0, q_head = 1,
      q_slots = [\<lparr>sequence = 1, element = 5\<rparr>, \<lparr>sequence = 1, element = 0\<rparr>]\<rparr> 9 =
     Some (\<lparr>q_tail = 1, q_head = 1,
       q_slots = [\<lparr>sequence = 2, element = 0\<rparr>, \<lparr>sequence = 1, element = 0\<rparr>]\<rparr>, True, 5) \<and>
   sequence (q_slots \<lparr>q_tail = 1, q_head = 1,
       q_slots = [\<lparr>sequence = 2, element = 0 :: int\<rparr>, \<lparr>sequence = 1, element = 0\<rparr>]\<rparr> !
     idx (2 ^ 1) (q_tail \<lparr>q_tail = 0, q_head = 1,
       q_slots = [\<lparr>sequence = 1, element = 5 :: int\<rparr>, \<lparr>sequence = 1, element = 0\<rparr>]\<rparr>)) = 2 \<and>
   sequence (q_slots \<lparr>q_tail = 0, q_head = 1,
       q_slots = [\<lparr>sequence = 1, element = 5 :: int\<rparr>, \<lparr>sequence = 1, element = 0\<rparr>]\<rparr> ! 0) = 1 \<and>
   sequence (q_slots \<lparr>q_tail = 0, q_head = 1,
       q_slots = [\<lparr>sequence = 1, element = 5 :: int\<rparr>, \<lparr>sequence = 1, element = 0\<rparr>]\<rparr> ! 1) =
     next_producer_index (2 ^ 1) \<lparr>q_tail = 0, q_head = 1,
       q_slots = [\<lparr>sequence = 1, element = 5 :: int\<rparr>, \<lparr>sequence = 1, element = 0\<rparr>]\<rparr> 1 \<and>
   \<not> (1 :: nat) < unat (q_head \<lparr>q_tail = 0, q_head = 1,
       q_slots = [\<lparr>sequence = 1, element = 5 :: int\<rparr>, \<lparr>sequence = 1, element = 0\<rparr>]\<rparr> -
     q_tail \<lparr>q_tail = 0, q_head = 1,
       q_slots = [\<lparr>sequence = 1, element = 5 :: int\<rparr>, \<lparr>sequence = 1, element = 0\<rparr>]\<rparr>) \<and>
   next_producer_index (2 ^ 1) \<lparr>q_tail = 0, q_head = 1,
       q_slots = [\<lparr>sequence = 1, element = 5 :: int\<rparr>, \<lparr>sequence = 1, element = 0\<rparr>]\<rparr> 1 = 1 \<and>
   (0 :: nat) = 0 \<and> mpmc_reachable (2 ^ 0) MoveOnlyType overfull_queue \<and>
   sequence (q_slots overfull_queue ! 0) = next_producer_index (2 ^ 0) overfull_queue 0"
proof -
  let ?Q = "\<lparr>q_tail = 0, q_head = 1,
      q_slots = [\<lparr>sequence = 1, element = 5 :: int\<rparr>, \<lparr>sequence = 1, element = 0\<rparr>]\<rparr>"
  let ?E = "\<lparr>q_tail = 0, q_head = 2,
      q_slots = [\<lparr>sequence = 1, element = 5 :: int\<rparr>, \<lparr>sequence = 2, element = 6\<rparr>]\<rparr>"
  let ?D = "\<lparr>q_tail = 1, q_head = 1,
      q_slots = [\<lparr>sequence = 2, element = 0 :: int\<rparr>, \<lparr>sequence = 1, element = 0\<rparr>]\<rparr>"
  have k: "(1 :: nat) < 64" and k0: "(0 :: nat) < 64"
    by simp_all
  have n: "(1 :: nat) < 2 ^ 1" "(1 :: nat) \<le> 1" "(0 :: nat) < 2 ^ 1" "(0 :: nat) = 0"
    by simp_all
  have len: "length (q_slots ?Q) = 2 ^ 1"
    by simp
  have "mpmc_run (2 ^ 1) MoveOnlyType (MPMCQueue_new (2 ^ 1) MoveOnlyType) [Enq 5] =
      Some (?Q, [EnqR True])"
    by code_simp
  then have r: "mpmc_reachable (2 ^ 1) MoveOnlyType ?Q"
    unfolding mpmc_reachable_def by blast
  have e: "enqueue (2 ^ 1) ?Q 6 = Some (?E, True)"
    by code_simp
  have d: "dequeue (2 ^ 1) MoveOnlyType ?Q 9 = Some (?D, True, 5)"
    by code_simp
  have "mpmc_run (2 ^ 0) MoveOnlyType (MPMCQueue_new (2 ^ 0) MoveOnlyType) [Enq 1, Enq 2] =
      Some (overfull_queue, [EnqR True, EnqR True])"
    using overfull_queue_reached by simp
  then have r0: "mpmc_reachable (2 ^ 0) MoveOnlyType overfull_queue"
    unfolding mpmc_reachable_def by blast
  note one = slot_sequences [OF k, where T = MoveOnlyType and i = 1 and q = ?Q and v = 6
      and ?q1.0 = ?E and r = 9 and ?q2.0 = ?D and x = 5 and p = ?Q and j = 0]
  note zero = slot_sequences [OF k0, where T = MoveOnlyType and p = overfull_queue]
  have c1: "sequence (q_slots (MPMCQueue_new (2 ^ 1) MoveOnlyType) ! 1) = of_nat 1"
    "next_producer_index (2 ^ 1) (MPMCQueue_new (2 ^ 1) MoveOnlyType) 1 = of_nat 1"
    using one n by blast+
  have c2: "sequence (q_slots ?E ! idx (2 ^ 1) (q_head ?Q)) = q_head ?Q + 1"
    using one len e by blast
  have c3: "sequence (q_slots ?D ! idx (2 ^ 1) (q_tail ?Q)) = q_tail ?Q + 2 ^ 1"
    using one len d by blast
  have c5: "sequence (q_slots ?Q ! idx (2 ^ 1) (q_tail ?Q + of_nat 0)) =
      (if 0 < unat (q_head ?Q - q_tail ?Q) then q_tail ?Q + of_nat 0 + 1
       else next_producer_index (2 ^ 1) ?Q (idx (2 ^ 1) (q_tail ?Q + of_nat 0)))"
    using one n r by blast
  have c6: "sequence (q_slots ?Q ! idx (2 ^ 1) (q_tail ?Q + of_nat 1)) =
      (if 1 < unat (q_head ?Q - q_tail ?Q) then q_tail ?Q + of_nat 1 + 1
       else next_producer_index (2 ^ 1) ?Q (idx (2 ^ 1) (q_tail ?Q + of_nat 1)))"
    using slot_sequences [OF k, where T = MoveOnlyType and p = ?Q and j = 1] n r by blast
  have c7: "sequence (q_slots overfull_queue ! 0) = next_producer_index (2 ^ 0) overfull_queue 0"
    using zero n r0 by blast
  have nf: "\<not> (1 :: nat) < unat (q_head ?Q - q_tail ?Q)"
    by simp
  have c8: "next_producer_index (2 ^ 1) ?Q (idx (2 ^ 1) (q_tail ?Q + of_nat 1)) =
      q_tail ?Q + of_nat 1"
    using slot_sequences [OF k, where T = MoveOnlyType and p = ?Q and j = 1] n nf by blast
  have i1: "idx (2 ^ 1) (1 :: size_t) = 1" "idx (2 ^ 1) (0 :: size_t) = 0"
    by (simp_all add: idx_def)
  have s2: "sequence (q_slots ?E ! idx (2 ^ 1) (q_head ?Q)) = 2"
    using c2 by simp
  have s3: "sequence (q_slots ?D ! idx (2 ^ 1) (q_tail ?Q)) = 2"
    using c3 by simp
  have s5: "sequence (q_slots ?Q ! 0) = 1"
    using c5 i1 by simp
  have s6: "sequence (q_slots ?Q ! 1) = next_producer_index (2 ^ 1) ?Q 1"
    using c6 i1 by simp
  have s8: "next_producer_index (2 ^ 1) ?Q 1 = 1"
    using c8 i1 by simp
  show ?thesis
    by (intro conjI k n c1 len r e s2 d s3 s5 s6 nf s8 r0 c7)
qed

subsection \<open>C5\<close>




subsection \<open>C6\<close>

text \<open>
  Claim C6 on a ring buffer of capacity 1, over \<open>2 ^ 64\<close> cycles that each fill it with the
  value 7 and drain it with one dequeue. The first \<open>2 ^ 64 - 1\<close> cycles return their value. In
  the last cycle \<^verbatim>\<open>try_enqueue\<close> returns true and \<^verbatim>\<open>try_dequeue\<close>, documented to return
  \<^verbatim>\<open>std::nullopt\<close> if the buffer is empty, returns \<open>None\<close>, where the claim says that it returns
  the 7.
\<close>

theorem ring_buffer_cycle_after_wrap:
  "snd (rb_run (2 ^ 0) MoveOnlyType (RingBuffer_new (2 ^ 0) MoveOnlyType)
     (concat (map cycle_ops (replicate (2 ^ 64) [7])))) =
   concat (map cycle_results (replicate (2 ^ 64 - 1) [7])) @ [EnqR True, DeqR None] \<and>
   snd (rb_run (2 ^ 0) MoveOnlyType (RingBuffer_new (2 ^ 0) MoveOnlyType)
     (concat (map cycle_ops (replicate (2 ^ 64) [7])))) \<noteq>
   concat (map cycle_results (replicate (2 ^ 64) [7]))"
  by (intro conjI rb_wrapped_cycle_results [OF refl refl] rb_wrapped_cycle_differs [OF refl])

text \<open>
  Where the round trip is the identity. Any number of fill-then-drain cycles on a newly
  constructed queue, each cycle enqueueing at most capacity values (so in particular exactly
  capacity values) and then dequeueing as many times: in every cycle all calls succeed and the
  dequeues return the values of that cycle in their enqueue order. For the sequenced-slot queue
  this holds for every number of cycles; for the ring buffer it holds as long as fewer than
  \<open>2 ^ 64\<close> values are enqueued in all.
\<close>

theorem fill_drain_cycles:
  assumes "k < 64" and "\<forall>vs \<in> set cycles. length vs \<le> 2 ^ k"
  shows "map_option snd (mpmc_run (2 ^ k) T (MPMCQueue_new (2 ^ k) T)
            (concat (map cycle_ops cycles))) = Some (concat (map cycle_results cycles)) \<and>
         (length (concat cycles) < 2 ^ 64 \<longrightarrow>
            snd (rb_run (2 ^ k) T (RingBuffer_new (2 ^ k) T) (concat (map cycle_ops cycles))) =
              concat (map cycle_results cycles))"
proof -
  have h: "q_head (MPMCQueue_new (2 ^ k) T) = q_tail (MPMCQueue_new (2 ^ k) T)"
    by (simp add: MPMCQueue_new_def)
  have rh: "rb_head (RingBuffer_new (2 ^ k) T) = rb_tail (RingBuffer_new (2 ^ k) T)"
    by (simp add: RingBuffer_new_def)
  have mpmc: "map_option snd (mpmc_run (2 ^ k) T (MPMCQueue_new (2 ^ k) T)
            (concat (map cycle_ops cycles))) = Some (concat (map cycle_results cycles))"
    using mpmc_cycles [OF assms(1) mpmc_inv_new [OF assms(1), of T] h assms(2), of T] by auto
  have rb: "snd (rb_run (2 ^ k) T (RingBuffer_new (2 ^ k) T) (concat (map cycle_ops cycles))) =
      concat (map cycle_results cycles)" if "length (concat cycles) < 2 ^ 64"
  proof -
    have "unat (rb_head (RingBuffer_new (2 ^ k) T)) + length (concat cycles) < 2 ^ 64"
      using that by (simp add: RingBuffer_new_def)
    from rb_cycles [OF assms(1) rb_inv_new [OF assms(1), of T] rh assms(2) this, of T]
    show ?thesis by auto
  qed
  show ?thesis
    using mpmc rb by blast
qed

theorem fill_drain_cycles_witness:
  "(1 :: nat) < 64 \<and> length [0, 1 :: int] \<le> 2 ^ 1 \<and> length [100, 101 :: int] \<le> 2 ^ 1 \<and>
   length (concat [[0, 1], [100, 101 :: int]]) < 2 ^ 64 \<and>
   map_option snd (mpmc_run (2 ^ 1) MoveOnlyType (MPMCQueue_new (2 ^ 1) MoveOnlyType)
      [Enq 0, Enq 1, Deq, Deq, Enq 100, Enq 101, Deq, Deq]) =
     Some [EnqR True, EnqR True, DeqR (Some 0), DeqR (Some 1),
           EnqR True, EnqR True, DeqR (Some 100), DeqR (Some 101)] \<and>
   snd (rb_run (2 ^ 1) MoveOnlyType (RingBuffer_new (2 ^ 1) MoveOnlyType)
      [Enq 0, Enq 1, Deq, Deq, Enq 100, Enq 101, Deq, Deq]) =
     [EnqR True, EnqR True, DeqR (Some 0), DeqR (Some 1),
      EnqR True, EnqR True, DeqR (Some 100), DeqR (Some 101)]"
  using fill_drain_cycles [of 1 "[[0, 1], [100, 101]]" MoveOnlyType]
  by (simp add: cycle_ops_def cycle_results_def)

subsection \<open>C7\<close>




subsection \<open>C8\<close>

text \<open>
  Claim C8. The form of dequeue that writes into an out-parameter and the form that returns an
  optional are equivalent: whatever the out-parameter held before the call, the optional form
  leaves the queue in the same state, returns \<open>Some v\<close> exactly when the other form returns
  true with \<open>v\<close> in the out-parameter, and returns \<open>None\<close> exactly when the other form returns
  false. This holds in every state of both queues; in every reachable state of a sequenced-slot
  queue of capacity at least 2 both forms do return.
\<close>

theorem dequeue_forms_equivalent:
  "dequeue_opt Capacity T q =
     map_option (\<lambda>(q', ok, x). (q', if ok then Some x else None)) (dequeue Capacity T q r) \<and>
   try_dequeue_opt Capacity T b =
     (case try_dequeue Capacity T b r of (b', ok, x) \<Rightarrow> (b', if ok then Some x else None)) \<and>
   (1 \<le> k \<and> k < 64 \<and> mpmc_reachable (2 ^ k) T p \<longrightarrow>
      dequeue (2 ^ k) T p r \<noteq> None \<and> dequeue_opt (2 ^ k) T p \<noteq> None)"
proof -
  have "dequeue Capacity T q (T_default_init T 0) =
      map_option (\<lambda>(q', ok, x). (q', ok, if ok then x else T_default_init T 0)) (dequeue Capacity T q r)"
    by (rule dequeue_result_indep)
  then have mpmc: "dequeue_opt Capacity T q =
     map_option (\<lambda>(q', ok, x). (q', if ok then Some x else None)) (dequeue Capacity T q r)"
    by (cases "dequeue Capacity T q r") (auto simp: dequeue_opt_def)
  have rb: "try_dequeue_opt Capacity T b =
     (case try_dequeue Capacity T b r of (b', ok, x) \<Rightarrow> (b', if ok then Some x else None))"
    by (rule try_dequeue_opt_eq)
  show ?thesis
    using mpmc rb mpmc_reachable_calls_return [of k T p _ r] by blast
qed

theorem dequeue_forms_equivalent_witness:
  "(1 :: nat) \<le> 1 \<and> (1 :: nat) < 64 \<and>
   mpmc_reachable (2 ^ 1) \<lparr>T_default = 0 :: nat, T_default_init = (\<lambda>n. 0), T_moved = (\<lambda>x. 0)\<rparr>
     (MPMCQueue_new (2 ^ 1) \<lparr>T_default = 0 :: nat, T_default_init = (\<lambda>n. 0), T_moved = (\<lambda>x. 0)\<rparr>) \<and>
   dequeue (2 ^ 1) \<lparr>T_default = 0 :: nat, T_default_init = (\<lambda>n. 0), T_moved = (\<lambda>x. 0)\<rparr>
     (MPMCQueue_new (2 ^ 1) \<lparr>T_default = 0 :: nat, T_default_init = (\<lambda>n. 0), T_moved = (\<lambda>x. 0)\<rparr>) 5 \<noteq> None \<and>
   dequeue_opt (2 ^ 1) \<lparr>T_default = 0 :: nat, T_default_init = (\<lambda>n. 0), T_moved = (\<lambda>x. 0)\<rparr>
     (MPMCQueue_new (2 ^ 1) \<lparr>T_default = 0 :: nat, T_default_init = (\<lambda>n. 0), T_moved = (\<lambda>x. 0)\<rparr>) \<noteq> None"
  using dequeue_forms_equivalent [of "2 ^ 1" "\<lparr>T_default = 0 :: nat, T_default_init = (\<lambda>n. 0), T_moved = (\<lambda>x. 0)\<rparr>"
      "MPMCQueue_new (2 ^ 1) \<lparr>T_default = 0 :: nat, T_default_init = (\<lambda>n. 0), T_moved = (\<lambda>x. 0)\<rparr>" 5 _ 1
      "MPMCQueue_new (2 ^ 1) \<lparr>T_default = 0 :: nat, T_default_init = (\<lambda>n. 0), T_moved = (\<lambda>x. 0)\<rparr>"]
    mpmc_reachable_new [of "2 ^ 1" "\<lparr>T_default = 0 :: nat, T_default_init = (\<lambda>n. 0), T_moved = (\<lambda>x. 0)\<rparr>"]
  by simp

subsection \<open>C9\<close>

text \<open>
  Claim C9. On destruction the queue should destroy exactly the elements still queued: those
  at the positions from the consumer index up to the producer index, once each. The loop of
  the ring buffer's destructor starts at the producer index and counts upwards until it meets
  the consumer index. With capacity 4 and one element queued at position 0 it makes
  \<open>2 ^ 64 - 1\<close> destructor calls, the first of them on position 1.
\<close>

theorem destructor_runs_from_head:
  "rb_live_positions 4 (fst (try_enqueue 4 (RingBuffer_new 4 \<lparr>T_default = 0 :: nat, T_default_init = (\<lambda>n. 0), T_moved = (\<lambda>x. x)\<rparr>) 7)) = [0] \<and>
   length (RingBuffer_destructor 4 (fst (try_enqueue 4 (RingBuffer_new 4 \<lparr>T_default = 0 :: nat, T_default_init = (\<lambda>n. 0), T_moved = (\<lambda>x. x)\<rparr>) 7))) = 2 ^ 64 - 1 \<and>
   hd (RingBuffer_destructor 4 (fst (try_enqueue 4 (RingBuffer_new 4 \<lparr>T_default = 0 :: nat, T_default_init = (\<lambda>n. 0), T_moved = (\<lambda>x. x)\<rparr>) 7))) = 1"
proof -
  let ?q = "fst (try_enqueue 4 (RingBuffer_new 4 \<lparr>T_default = 0 :: nat, T_default_init = (\<lambda>n. 0), T_moved = (\<lambda>x. x)\<rparr>) 7)"
  have h: "rb_head ?q = 1" and t: "rb_tail ?q = 0"
    by (simp_all add: try_enqueue_def RingBuffer_new_def Let_def)
  have live: "rb_live_positions 4 ?q = [0]"
    unfolding rb_live_positions_def h t by (simp add: idx_def)
  have len: "length (RingBuffer_destructor 4 ?q) = 2 ^ 64 - 1"
    unfolding RingBuffer_destructor_def h t by (simp add: length_destructor_loop unat_minus_1_size_t)
  have "destructor_loop 4 1 0 = unat ((1 :: size_t) AND (4 - 1)) # destructor_loop 4 (1 + 1) 0"
    by (subst destructor_loop.simps) simp
  then have first: "hd (RingBuffer_destructor 4 ?q) = 1"
    unfolding RingBuffer_destructor_def h t by simp
  show ?thesis
    using live len first by simp
qed

subsection \<open>C10\<close>

text \<open>
  Claim C10. Each operation changes at most its own side of the queue. An enqueue that returns
  true leaves the queue with the producer index one higher and the claimed slot
  (the position of the old producer index) rewritten, and with the consumer index and every other
  slot as they were; a dequeue that returns true leaves it with the consumer index one higher
  and the claimed slot rewritten, and with the producer index and every other slot as they
  were; a call that returns false or \<open>None\<close> leaves the queue as it was. This holds in every
  state of both queues; in every reachable state of a sequenced-slot queue of capacity at
  least 2 the calls do return.
\<close>

theorem operations_frame:
  "(enqueue Capacity q v = Some (q1, ok1) \<longrightarrow>
      (if ok1
       then q1 = q\<lparr>q_head := q_head q + 1,
              q_slots := (q_slots q)[idx Capacity (q_head q) :=
                \<lparr>sequence = q_head q + 1, element = v\<rparr>]\<rparr>
       else q1 = q)) \<and>
   (dequeue Capacity T q r = Some (q2, ok2, x2) \<longrightarrow>
      (if ok2
       then q2 = q\<lparr>q_tail := q_tail q + 1,
              q_slots := (q_slots q)[idx Capacity (q_tail q) :=
                \<lparr>sequence = q_tail q + Capacity,
                 element = T_moved T (element (q_slots q ! idx Capacity (q_tail q)))\<rparr>]\<rparr>
       else q2 = q)) \<and>
   (dequeue_opt Capacity T q = Some (q3, x3) \<longrightarrow>
      (if x3 \<noteq> None
       then q3 = q\<lparr>q_tail := q_tail q + 1,
              q_slots := (q_slots q)[idx Capacity (q_tail q) :=
                \<lparr>sequence = q_tail q + Capacity,
                 element = T_moved T (element (q_slots q ! idx Capacity (q_tail q)))\<rparr>]\<rparr>
       else q3 = q)) \<and>
   (try_enqueue Capacity b v = (b1, ok4) \<longrightarrow>
      (if ok4
       then b1 = b\<lparr>rb_buffer := (rb_buffer b)[idx Capacity (rb_head b) := v],
              rb_head := rb_head b + 1\<rparr>
       else b1 = b)) \<and>
   (try_dequeue Capacity T b r = (b2, ok5, x5) \<longrightarrow>
      (if ok5
       then b2 = b\<lparr>rb_buffer := (rb_buffer b)[idx Capacity (rb_tail b) :=
                T_moved T (rb_buffer b ! idx Capacity (rb_tail b))],
              rb_tail := rb_tail b + 1\<rparr>
       else b2 = b)) \<and>
   (try_dequeue_opt Capacity T b = (b3, x6) \<longrightarrow>
      (if x6 \<noteq> None
       then b3 = b\<lparr>rb_buffer := (rb_buffer b)[idx Capacity (rb_tail b) :=
                T_moved T (rb_buffer b ! idx Capacity (rb_tail b))],
              rb_tail := rb_tail b + 1\<rparr>
       else b3 = b)) \<and>
   (1 \<le> k \<and> k < 64 \<and> mpmc_reachable (2 ^ k) T p \<longrightarrow>
      enqueue (2 ^ k) p v \<noteq> None \<and> dequeue (2 ^ k) T p r \<noteq> None \<and>
      dequeue_opt (2 ^ k) T p \<noteq> None)"
proof -
  have enq: "enqueue Capacity q v = Some (q1, ok1) \<longrightarrow>
      (if ok1
       then q1 = q\<lparr>q_head := q_head q + 1,
              q_slots := (q_slots q)[idx Capacity (q_head q) :=
                \<lparr>sequence = q_head q + 1, element = v\<rparr>]\<rparr>
       else q1 = q)"
    using enqueue_frame [of Capacity q v q1 ok1] by blast
  have deq: "dequeue Capacity T q r = Some (q2, ok2, x2) \<longrightarrow>
      (if ok2
       then q2 = q\<lparr>q_tail := q_tail q + 1,
              q_slots := (q_slots q)[idx Capacity (q_tail q) :=
                \<lparr>sequence = q_tail q + Capacity,
                 element = T_moved T (element (q_slots q ! idx Capacity (q_tail q)))\<rparr>]\<rparr>
       else q2 = q)"
    using dequeue_frame [of Capacity T q r q2 ok2 x2] by (auto split: if_splits)
  have opt: "dequeue_opt Capacity T q = Some (q3, x3) \<longrightarrow>
      (if x3 \<noteq> None
       then q3 = q\<lparr>q_tail := q_tail q + 1,
              q_slots := (q_slots q)[idx Capacity (q_tail q) :=
                \<lparr>sequence = q_tail q + Capacity,
                 element = T_moved T (element (q_slots q ! idx Capacity (q_tail q)))\<rparr>]\<rparr>
       else q3 = q)"
  proof
    assume a: "dequeue_opt Capacity T q = Some (q3, x3)"
    then obtain ok x where d: "dequeue Capacity T q (T_default_init T 0) = Some (q3, ok, x)"
      and x3: "x3 = (if ok then Some x else None)"
      by (auto simp: dequeue_opt_def split: option.splits)
    show "if x3 \<noteq> None
       then q3 = q\<lparr>q_tail := q_tail q + 1,
              q_slots := (q_slots q)[idx Capacity (q_tail q) :=
                \<lparr>sequence = q_tail q + Capacity,
                 element = T_moved T (element (q_slots q ! idx Capacity (q_tail q)))\<rparr>]\<rparr>
       else q3 = q"
      using dequeue_frame [OF d] x3 by (auto split: if_splits)
  qed
  have renq: "try_enqueue Capacity b v = (b1, ok4) \<longrightarrow>
      (if ok4
       then b1 = b\<lparr>rb_buffer := (rb_buffer b)[idx Capacity (rb_head b) := v],
              rb_head := rb_head b + 1\<rparr>
       else b1 = b)"
    by (auto simp: try_enqueue_def Let_def idx_def split: if_splits)
  have rdeq: "try_dequeue Capacity T b r = (b2, ok5, x5) \<longrightarrow>
      (if ok5
       then b2 = b\<lparr>rb_buffer := (rb_buffer b)[idx Capacity (rb_tail b) :=
                T_moved T (rb_buffer b ! idx Capacity (rb_tail b))],
              rb_tail := rb_tail b + 1\<rparr>
       else b2 = b)"
    by (auto simp: try_dequeue_def Let_def idx_def split: if_splits)
  have ropt: "try_dequeue_opt Capacity T b = (b3, x6) \<longrightarrow>
      (if x6 \<noteq> None
       then b3 = b\<lparr>rb_buffer := (rb_buffer b)[idx Capacity (rb_tail b) :=
                T_moved T (rb_buffer b ! idx Capacity (rb_tail b))],
              rb_tail := rb_tail b + 1\<rparr>
       else b3 = b)"
    by (auto simp: try_dequeue_opt_def Let_def idx_def split: if_splits)
  show ?thesis
    using enq deq opt renq rdeq ropt mpmc_reachable_calls_return [of k T p v r] by blast
qed

theorem operations_frame_witness:
  "enqueue (2 ^ 1) (MPMCQueue_new (2 ^ 1) MoveOnlyType) 5 =
     Some ((MPMCQueue_new (2 ^ 1) MoveOnlyType)\<lparr>q_head := 1,
       q_slots := [\<lparr>sequence = 1, element = 5\<rparr>, \<lparr>sequence = 1, element = 0\<rparr>]\<rparr>, True) \<and>
   dequeue (2 ^ 1) MoveOnlyType (MPMCQueue_new (2 ^ 1) MoveOnlyType) 9 =
     Some (MPMCQueue_new (2 ^ 1) MoveOnlyType, False, 9) \<and>
   dequeue_opt (2 ^ 1) MoveOnlyType (MPMCQueue_new (2 ^ 1) MoveOnlyType) =
     Some (MPMCQueue_new (2 ^ 1) MoveOnlyType, None) \<and>
   try_enqueue (2 ^ 1) (RingBuffer_new (2 ^ 1) MoveOnlyType) 5 =
     ((RingBuffer_new (2 ^ 1) MoveOnlyType)\<lparr>rb_buffer := [5, 0], rb_head := 1\<rparr>, True) \<and>
   try_dequeue (2 ^ 1) MoveOnlyType (RingBuffer_new (2 ^ 1) MoveOnlyType) 9 =
     (RingBuffer_new (2 ^ 1) MoveOnlyType, False, 9) \<and>
   try_dequeue_opt (2 ^ 1) MoveOnlyType (RingBuffer_new (2 ^ 1) MoveOnlyType) =
     (RingBuffer_new (2 ^ 1) MoveOnlyType, None) \<and>
   (1 :: nat) \<le> 1 \<and> (1 :: nat) < 64 \<and>
   mpmc_reachable (2 ^ 1) MoveOnlyType (MPMCQueue_new (2 ^ 1) MoveOnlyType) \<and>
   enqueue (2 ^ 1) (MPMCQueue_new (2 ^ 1) MoveOnlyType) 5 \<noteq> None"
proof -
  let ?Q = "MPMCQueue_new (2 ^ 1) MoveOnlyType"
  let ?B = "RingBuffer_new (2 ^ 1) MoveOnlyType"
  have e: "enqueue (2 ^ 1) ?Q 5 = Some (?Q\<lparr>q_head := 1,
       q_slots := [\<lparr>sequence = 1, element = 5\<rparr>, \<lparr>sequence = 1, element = 0\<rparr>]\<rparr>, True)"
    by code_simp
  have d: "dequeue (2 ^ 1) MoveOnlyType ?Q 9 = Some (?Q, False, 9)"
    by code_simp
  have o: "dequeue_opt (2 ^ 1) MoveOnlyType ?Q = Some (?Q, None)"
    by code_simp
  have re: "try_enqueue (2 ^ 1) ?B 5 = (?B\<lparr>rb_buffer := [5, 0], rb_head := 1\<rparr>, True)"
    by code_simp
  have rd: "try_dequeue (2 ^ 1) MoveOnlyType ?B 9 = (?B, False, 9)"
    by code_simp
  have ro: "try_dequeue_opt (2 ^ 1) MoveOnlyType ?B = (?B, None)"
    by code_simp
  have r: "mpmc_reachable (2 ^ 1) MoveOnlyType ?Q"
    by (rule mpmc_reachable_new)
  show ?thesis
    using operations_frame [of "2 ^ 1" ?Q 5 _ True MoveOnlyType 9 ?Q False 9 ?Q None ?B _ True
        ?B False 9 ?B None 1 ?Q] e d o re rd ro r
    by simp
qed

end
